theory Spec2Isabelle
  imports Complex_Main
begin

section \<open>Text\<close>

text \<open>
  A Python \<open>str\<close> is a sequence of Unicode code points, and \<open>len\<close> counts code points.
  It is modelled as a list of code point numbers, so that the box-drawing characters of the
  renderers are single characters, as they are in Python. \<open>asc\<close> embeds an ASCII literal.
\<close>

type_synonym ustr = "nat list"

definition asc :: "string \<Rightarrow> ustr" where
  "asc s = map of_char s"

text \<open>The literals of the two renderers: U+2502 is the vertical bar, U+251C the tee,
  U+2514 the corner and U+2500 the horizontal dash.\<close>

definition BAR :: ustr where
  "BAR = [9474, 32, 32, 32]"

definition BLANK :: ustr where
  "BLANK = [32, 32, 32, 32]"

definition TEE :: ustr where
  "TEE = [9500, 9472, 9472, 32]"

definition ELL :: ustr where
  "ELL = [9492, 9472, 9472, 32]"

definition LEAF :: ustr where
  "LEAF = ELL @ asc ''value''"

text \<open>Python's \<open>s * n\<close> on a string: the empty string when \<open>n\<close> is zero or negative.\<close>

definition repeat :: "ustr \<Rightarrow> int \<Rightarrow> ustr" where
  "repeat s n = concat (replicate (nat n) s)"

text \<open>\<open>str(idx)\<close> for a list index: the decimal digits of a natural number.\<close>

fun digits :: "nat \<Rightarrow> ustr" where
  "digits n = (if n < 10 then [48 + n] else digits (n div 10) @ [48 + n mod 10])"

declare digits.simps [simp del]

section \<open>app.py: the renderer of parsed JSON\<close>

text \<open>
  What \<open>json.load\<close> returns: a dict (ordered, keys are strings), a list, or a scalar
  (string, number, boolean, None). \<open>build_tree\<close> never looks at a scalar, so its content
  is a type parameter.
\<close>

datatype 'a jvalue =
    JDict "(ustr \<times> 'a jvalue) list"
  | JList "'a jvalue list"
  | JScalar 'a

text \<open>
  \<open>build_tree(data, indent)\<close>. The local \<open>prefix\<close> of the source is computed and never
  used. Inside either loop the container is not empty, so \<open>len(data) - 1\<close> is not negative.
  \<open>isinstance(value, (dict, list))\<close> is the case distinction on the constructor.
\<close>

function build_tree :: "'a jvalue \<Rightarrow> int \<Rightarrow> ustr list" where
  "build_tree (JDict items) indent =
     concat (map (\<lambda>(i, kv).
         (let is_last = (i = length items - 1);
              connector = (if is_last then ELL else TEE)
          in [if indent = 0 then fst kv else repeat BAR (indent - 1) @ connector @ fst kv] @
             (case snd kv of
                JScalar x \<Rightarrow> [repeat BAR indent @ LEAF]
              | v \<Rightarrow> build_tree v (indent + 1))))
       (enumerate 0 items))"
| "build_tree (JList items) indent =
     concat (map (\<lambda>(idx, item).
         (let is_last = (idx = length items - 1);
              connector = (if is_last then ELL else TEE)
          in [repeat BAR (indent - 1) @ connector @ asc ''['' @ digits idx @ asc '']''] @
             (case item of
                JScalar x \<Rightarrow> [repeat BAR indent @ LEAF]
              | v \<Rightarrow> build_tree v (indent + 1))))
       (enumerate 0 items))"
| "build_tree (JScalar x) indent = []"
  by pat_completeness auto
termination
proof (relation "measure (\<lambda>(v, indent). size v)", goal_cases)
  case 1
  show ?case by simp
next
  case (2 items indent p i kv)
  have "kv \<in> set items \<Longrightarrow> size (snd kv) < Suc (size_list (size_prod (\<lambda>_. 0) size) items)"
    by (induction items) auto
  moreover from 2 have "(i, kv) \<in> set (enumerate 0 items)"
    by simp
  then have "kv \<in> set items"
    by (metis in_set_enumerate_eq nth_mem fst_conv snd_conv diff_zero add_0_right)
  ultimately show ?case using 2 by (cases kv) auto
next
  case (3 items indent p i kv)
  have "kv \<in> set items \<Longrightarrow> size (snd kv) < Suc (size_list (size_prod (\<lambda>_. 0) size) items)"
    by (induction items) auto
  moreover from 3 have "(i, kv) \<in> set (enumerate 0 items)"
    by simp
  then have "kv \<in> set items"
    by (metis in_set_enumerate_eq nth_mem fst_conv snd_conv diff_zero add_0_right)
  ultimately show ?case using 3 by (cases kv) auto
next
  case (4 items indent p idx item)
  have "item \<in> set items \<Longrightarrow> size item < Suc (size_list size items)"
    by (induction items) auto
  moreover from 4 have "(idx, item) \<in> set (enumerate 0 items)"
    by simp
  then have "item \<in> set items"
    by (metis in_set_enumerate_eq nth_mem fst_conv snd_conv diff_zero add_0_right)
  ultimately show ?case using 4 by auto
next
  case (5 items indent p idx item)
  have "item \<in> set items \<Longrightarrow> size item < Suc (size_list size items)"
    by (induction items) auto
  moreover from 5 have "(idx, item) \<in> set (enumerate 0 items)"
    by simp
  then have "item \<in> set items"
    by (metis in_set_enumerate_eq nth_mem fst_conv snd_conv diff_zero add_0_right)
  ultimately show ?case using 5 by auto
qed

declare build_tree.simps [simp del]

section \<open>app2.py: character classes and line handling of the Python runtime\<close>

text \<open>
  The whitespace of \<open>\s\<close> in a \<open>str\<close> pattern and of \<open>str.strip()\<close>: the code points for
  which the interpreter's \<open>Py_UNICODE_ISSPACE\<close> holds.
\<close>

definition is_space :: "nat \<Rightarrow> bool" where
  "is_space c = ((9 \<le> c \<and> c \<le> 13) \<or> (28 \<le> c \<and> c \<le> 32) \<or> c = 133 \<or> c = 160 \<or> c = 5760 \<or>
     (8192 \<le> c \<and> c \<le> 8202) \<or> c = 8232 \<or> c = 8233 \<or> c = 8239 \<or> c = 8287 \<or> c = 12288)"

text \<open>The line boundaries of \<open>str.splitlines()\<close>.\<close>

definition is_linebreak :: "nat \<Rightarrow> bool" where
  "is_linebreak c = ((10 \<le> c \<and> c \<le> 13) \<or> (28 \<le> c \<and> c \<le> 30) \<or> c = 133 \<or> c = 8232 \<or> c = 8233)"

text \<open>
  The word characters of \<open>\b\<close> in a \<open>str\<close> pattern: ASCII letters, digits and the
  underscore, and beyond ASCII whatever the Unicode database of the interpreter calls
  alphanumeric. That table is the parameter \<open>ua\<close>; nothing below depends on what it holds.
\<close>

definition is_word :: "(nat \<Rightarrow> bool) \<Rightarrow> nat \<Rightarrow> bool" where
  "is_word ua c = (if c < 128
     then (48 \<le> c \<and> c \<le> 57) \<or> (65 \<le> c \<and> c \<le> 90) \<or> (97 \<le> c \<and> c \<le> 122) \<or> c = 95
     else ua c)"

text \<open>A table with no alphanumeric character beyond ASCII, for running the model on ASCII text.\<close>

definition ascii_only :: "nat \<Rightarrow> bool" where
  "ascii_only c = False"

text \<open>
  \<open>str.splitlines()\<close>: the text is cut after every line boundary, \<open>\r\n\<close> counting as one;
  the boundaries are dropped, and text that ends with a boundary has no empty last line.
  \<open>cur\<close> is the line read so far.
\<close>

fun splitlines_from :: "ustr \<Rightarrow> ustr \<Rightarrow> ustr list" where
  "splitlines_from cur [] = (if cur = [] then [] else [cur])"
| "splitlines_from cur [c] = (if is_linebreak c then [cur] else [cur @ [c]])"
| "splitlines_from cur (c # d # cs) =
     (if c = 13 \<and> d = 10 then cur # splitlines_from [] cs
      else if is_linebreak c then cur # splitlines_from [] (d # cs)
      else splitlines_from (cur @ [c]) (d # cs))"

definition splitlines :: "ustr \<Rightarrow> ustr list" where
  "splitlines source = splitlines_from [] source"

definition strip :: "ustr \<Rightarrow> ustr" where
  "strip s = rev (dropWhile is_space (rev (dropWhile is_space s)))"

definition startswith :: "ustr \<Rightarrow> ustr \<Rightarrow> bool" where
  "startswith s p = (take (length p) s = p)"

text \<open>The rest of \<open>s\<close> after the literal \<open>p\<close>, when \<open>s\<close> starts with it.\<close>

definition after_literal :: "ustr \<Rightarrow> ustr \<Rightarrow> ustr option" where
  "after_literal p s = (if startswith s p then Some (drop (length p) s) else None)"

text \<open>
  \<open>\b\<close> between the character before the position (none at the start of the line) and the
  text from the position on: exactly one side is a word character.
\<close>

definition word_boundary :: "(nat \<Rightarrow> bool) \<Rightarrow> nat option \<Rightarrow> ustr \<Rightarrow> bool" where
  "word_boundary ua prev rest =
     ((case prev of None \<Rightarrow> False | Some c \<Rightarrow> is_word ua c) \<noteq>
      (case rest of [] \<Rightarrow> False | c # _ \<Rightarrow> is_word ua c))"

text \<open>\<open>pattern.search(line)\<close>: the pattern matches at some position of the line.\<close>

fun re_search :: "(nat option \<Rightarrow> ustr \<Rightarrow> bool) \<Rightarrow> nat option \<Rightarrow> ustr \<Rightarrow> bool" where
  "re_search m prev [] = m prev []"
| "re_search m prev (c # cs) = (m prev (c # cs) \<or> re_search m (Some c) cs)"

section \<open>app2.py: extract_const_block\<close>

text \<open>
  Every \<open>raise\<close> of the file is a \<open>ValueError\<close> with its own message; the errors of the
  interpreter that the code could meet are \<open>min()\<close> of an empty sequence, an index into an
  empty list, division by zero and a missing dictionary key.
\<close>

datatype error =
    CouldNotFindConst
  | NoObjectBody
  | NoPropertyKeys
  | MinOfEmpty
  | IndexError
  | ZeroDivisionError
  | KeyError

text \<open>
  \<open>\bconst\s+NAME\s*=\<close> at one position, \<open>NAME\<close> being \<open>re.escape(const_name)\<close>, which
  matches the name literally. \<open>\s+\<close> may stop after any \<open>k \<ge> 1\<close> of the whitespace
  characters that follow \<open>const\<close> (the name itself may start with whitespace); \<open>\s*\<close>
  before \<open>=\<close> has one choice only, since \<open>=\<close> is not whitespace.
\<close>

definition const_pattern_at :: "(nat \<Rightarrow> bool) \<Rightarrow> ustr \<Rightarrow> nat option \<Rightarrow> ustr \<Rightarrow> bool" where
  "const_pattern_at ua const_name prev s =
     (word_boundary ua prev s \<and>
      (case after_literal (asc ''const'') s of
         None \<Rightarrow> False
       | Some r \<Rightarrow>
           list_ex (\<lambda>k.
               (case after_literal const_name (drop k r) of
                  None \<Rightarrow> False
                | Some r2 \<Rightarrow> startswith (dropWhile is_space r2) (asc ''='')))
             [1 ..< Suc (length (takeWhile is_space r))]))"

definition const_pattern_search :: "(nat \<Rightarrow> bool) \<Rightarrow> ustr \<Rightarrow> ustr \<Rightarrow> bool" where
  "const_pattern_search ua const_name line = re_search (const_pattern_at ua const_name) None line"

text \<open>
  \<open>re.match(r"\s*};\s*$", line)\<close>: whitespace, the two characters, and nothing but
  whitespace up to the end of the line.
\<close>

definition close_match :: "ustr \<Rightarrow> bool" where
  "close_match line =
     (case after_literal (asc ''};'') (dropWhile is_space line) of
        None \<Rightarrow> False
      | Some r \<Rightarrow> list_all is_space r)"

text \<open>
  \<open>\bexport\s+default\b\<close> at one position. \<open>\s+\<close> takes all the whitespace there is,
  since \<open>default\<close> does not start with whitespace. The character before the closing \<open>\b\<close>
  is the \<open>t\<close> of \<open>default\<close>.
\<close>

definition export_default_at :: "(nat \<Rightarrow> bool) \<Rightarrow> nat option \<Rightarrow> ustr \<Rightarrow> bool" where
  "export_default_at ua prev s =
     (word_boundary ua prev s \<and>
      (case after_literal (asc ''export'') s of
         None \<Rightarrow> False
       | Some r \<Rightarrow>
           takeWhile is_space r \<noteq> [] \<and>
           (case after_literal (asc ''default'') (dropWhile is_space r) of
              None \<Rightarrow> False
            | Some r2 \<Rightarrow> word_boundary ua (Some 116) r2)))"

definition export_default_search :: "(nat \<Rightarrow> bool) \<Rightarrow> ustr \<Rightarrow> bool" where
  "export_default_search ua line = re_search (export_default_at ua) None line"

text \<open>The test of line 25 of the source: the line ends the block.\<close>

definition is_terminator :: "(nat \<Rightarrow> bool) \<Rightarrow> ustr \<Rightarrow> bool" where
  "is_terminator ua line = (close_match line \<or> export_default_search ua line)"

text \<open>
  The \<open>for\<close> loop of \<open>extract_const_block\<close>, on the lines still to read; the state is
  \<open>in_const\<close> and \<open>block_lines\<close>. \<open>continue\<close> goes on with the next line, \<open>break\<close> returns
  the state as it is.
\<close>

fun scan_lines :: "(nat \<Rightarrow> bool) \<Rightarrow> ustr \<Rightarrow> bool \<Rightarrow> ustr list \<Rightarrow> ustr list \<Rightarrow> bool \<times> ustr list" where
  "scan_lines ua const_name in_const block_lines [] = (in_const, block_lines)"
| "scan_lines ua const_name in_const block_lines (line # lines) =
     (if \<not> in_const then
        (if const_pattern_search ua const_name line
         then scan_lines ua const_name True block_lines lines
         else scan_lines ua const_name in_const block_lines lines)
      else if is_terminator ua line then (in_const, block_lines)
      else scan_lines ua const_name in_const (block_lines @ [line]) lines)"

definition extract_const_block :: "(nat \<Rightarrow> bool) \<Rightarrow> ustr \<Rightarrow> ustr \<Rightarrow> error + ustr list" where
  "extract_const_block ua source const_name =
     (let lines = splitlines source;
          (in_const, block_lines) = scan_lines ua const_name False [] lines
      in if \<not> in_const then Inl CouldNotFindConst
         else if block_lines = [] then Inl NoObjectBody
         else Inr block_lines)"

section \<open>app2.py: find_property_keys\<close>

text \<open>The class \<open>[A-Za-z0-9_$]\<close>.\<close>

definition is_ident :: "nat \<Rightarrow> bool" where
  "is_ident c = ((65 \<le> c \<and> c \<le> 90) \<or> (97 \<le> c \<and> c \<le> 122) \<or> (48 \<le> c \<and> c \<le> 57) \<or> c = 95 \<or> c = 36)"

definition is_quote :: "nat \<Rightarrow> bool" where
  "is_quote c = (c = 34 \<or> c = 39)"

text \<open>
  \<open>ident_key_re.match(line)\<close> for \<open>^(\s*)([A-Za-z0-9_$]+)\s*:\<close>, giving the two groups.
  Each repetition has one choice only: the character that must follow it is not in its
  class, so it takes the whole run.
\<close>

definition ident_key_match :: "ustr \<Rightarrow> (ustr \<times> ustr) option" where
  "ident_key_match line =
     (let g1 = takeWhile is_space line;
          r1 = dropWhile is_space line;
          g2 = takeWhile is_ident r1;
          r2 = dropWhile is_ident r1
      in if g2 \<noteq> [] \<and> startswith (dropWhile is_space r2) (asc '':'')
         then Some (g1, g2) else None)"

text \<open>
  \<open>quoted_key_re.match(line)\<close> for \<open>^(\s*)["']([^"']+)["']\s*:\<close>. The two quotes need
  not be the same character.
\<close>

definition quoted_key_match :: "ustr \<Rightarrow> (ustr \<times> ustr) option" where
  "quoted_key_match line =
     (let g1 = takeWhile is_space line;
          r1 = dropWhile is_space line
      in case r1 of
           [] \<Rightarrow> None
         | q # r2 \<Rightarrow>
             (let g2 = takeWhile (\<lambda>c. \<not> is_quote c) r2;
                  r3 = dropWhile (\<lambda>c. \<not> is_quote c) r2
              in if is_quote q \<and> g2 \<noteq> [] \<and> r3 \<noteq> [] \<and>
                    startswith (dropWhile is_space (tl r3)) (asc '':'')
                 then Some (g1, g2) else None))"

text \<open>The \<open>for\<close> loop of \<open>find_property_keys\<close>, \<open>records\<close> being the list built so far.\<close>

fun scan_keys :: "(int \<times> ustr) list \<Rightarrow> ustr list \<Rightarrow> (int \<times> ustr) list" where
  "scan_keys records [] = records"
| "scan_keys records (line # lines) =
     (let stripped = strip line
      in if stripped = [] then scan_keys records lines
         else if startswith stripped (asc ''//'') \<or> startswith stripped (asc ''/*'') \<or>
                 startswith stripped (asc ''*'')
         then scan_keys records lines
         else
           (let m = (case ident_key_match line of None \<Rightarrow> quoted_key_match line | Some g \<Rightarrow> Some g)
            in case m of
                 None \<Rightarrow> scan_keys records lines
               | Some (g1, g2) \<Rightarrow> scan_keys (records @ [(int (length g1), g2)]) lines))"

definition find_property_keys :: "ustr list \<Rightarrow> error + (int \<times> ustr) list" where
  "find_property_keys block_lines =
     (let records = scan_keys [] block_lines
      in if records = [] then Inl NoPropertyKeys else Inr records)"

section \<open>app2.py: build_tree_from_keys\<close>

text \<open>
  The nested dicts of the result: a container is an ordered dict from key to container,
  a new key going to the end.
\<close>

datatype ntree = Node "(ustr \<times> ntree) list"

fun children :: "ntree \<Rightarrow> (ustr \<times> ntree) list" where
  "children (Node kvs) = kvs"

text \<open>
  The source keeps references to containers on its stack and mutates a container through
  such a reference. Every container is created by \<open>parent[key] = {}\<close>, stored under that one
  key and never removed, so a reference is modelled by the path of keys that leads from
  \<open>root_container\<close> to the container: \<open>[]\<close> is \<open>root_container\<close> itself.
\<close>

type_synonym path = "ustr list"

fun get_at :: "ntree \<Rightarrow> path \<Rightarrow> ntree option" where
  "get_at t [] = Some t"
| "get_at (Node kvs) (k # ks) = (case map_of kvs k of None \<Rightarrow> None | Some c \<Rightarrow> get_at c ks)"

fun update_at :: "path \<Rightarrow> (ntree \<Rightarrow> ntree) \<Rightarrow> ntree \<Rightarrow> ntree" where
  "update_at [] f t = f t"
| "update_at (k # ks) f (Node kvs) =
     Node (map (\<lambda>kc. if fst kc = k then (fst kc, update_at ks f (snd kc)) else kc) kvs)"

text \<open>\<open>if key not in parent: parent[key] = {}\<close>\<close>

fun add_key :: "ustr \<Rightarrow> ntree \<Rightarrow> ntree" where
  "add_key key (Node kvs) =
     (if key \<in> set (map fst kvs) then Node kvs else Node (kvs @ [(key, Node [])]))"

text \<open>
  \<open>min(indent for indent, _ in records)\<close> on a list that is not empty: the first item, then
  every later item that is smaller than the smallest so far.
\<close>

fun py_min :: "int list \<Rightarrow> error + int" where
  "py_min [] = Inl MinOfEmpty"
| "py_min (x # xs) = Inr (fold (\<lambda>y m. if y < m then y else m) xs x)"

text \<open>\<open>diffs\<close>: the set comprehension, sorted.\<close>

definition diffs :: "int \<Rightarrow> (int \<times> ustr) list \<Rightarrow> int list" where
  "diffs base_indent records =
     sort (remdups (map (\<lambda>r. fst r - base_indent) (filter (\<lambda>r. fst r - base_indent > 0) records)))"

definition indent_step :: "int \<Rightarrow> (int \<times> ustr) list \<Rightarrow> int" where
  "indent_step base_indent records =
     (case diffs base_indent records of [] \<Rightarrow> 2 | d # _ \<Rightarrow> d)"

text \<open>Lines 104 to 106: the level of a record. Python's \<open>//\<close> rounds down, as \<open>div\<close> does.\<close>

definition record_level :: "int \<Rightarrow> int \<Rightarrow> int \<Rightarrow> int" where
  "record_level base_indent step indent =
     (let level = 1 + (indent - base_indent) div step
      in if level < 1 then 1 else level)"

text \<open>
  The stack, as the Python list: the top is the last item. \<open>pop_to\<close> is the \<open>while\<close> loop
  of line 109.
\<close>

type_synonym stack = "(int \<times> path) list"

function pop_to :: "int \<Rightarrow> stack \<Rightarrow> stack" where
  "pop_to level st =
     (if st \<noteq> [] \<and> fst (last st) \<ge> level then pop_to level (butlast st) else st)"
  by pat_completeness auto
termination
  by (relation "measure (\<lambda>(level, st). length st)") auto

declare pop_to.simps [simp del]

record build_state =
  tree :: ntree
  stack :: stack

text \<open>
  One round of the \<open>for\<close> loop of line 102. \<open>stack[-1]\<close> raises on an empty stack and \<open>//\<close>
  on a zero step.
\<close>

definition process_record :: "int \<Rightarrow> int \<Rightarrow> build_state \<Rightarrow> int \<times> ustr \<Rightarrow> error + build_state" where
  "process_record base_indent step s r =
     (if step = 0 then Inl ZeroDivisionError
      else
        (let level = record_level base_indent step (fst r);
             st = pop_to level (stack s)
         in if st = [] then Inl IndexError
            else
              (let parent = snd (last st)
               in Inr \<lparr>tree = update_at parent (add_key (snd r)) (tree s),
                       stack = st @ [(level, parent @ [snd r])]\<rparr>)))"

fun build_loop :: "int \<Rightarrow> int \<Rightarrow> build_state \<Rightarrow> (int \<times> ustr) list \<Rightarrow> error + build_state" where
  "build_loop base_indent step s [] = Inr s"
| "build_loop base_indent step s (r # rs) =
     (case process_record base_indent step s r of
        Inl e \<Rightarrow> Inl e
      | Inr s' \<Rightarrow> build_loop base_indent step s' rs)"

text \<open>The state before the loop: an empty \<open>root_container\<close>, and the stack of line 100.\<close>

definition initial_state :: build_state where
  "initial_state = \<lparr>tree = Node [], stack = [(- 1, [])]\<rparr>"

text \<open>The result \<open>{const_name: root_container}\<close> is the container with that one key.\<close>

definition build_tree_from_keys :: "ustr \<Rightarrow> (int \<times> ustr) list \<Rightarrow> error + ntree" where
  "build_tree_from_keys const_name records =
     (case py_min (map fst records) of
        Inl e \<Rightarrow> Inl e
      | Inr base_indent \<Rightarrow>
          (case build_loop base_indent (indent_step base_indent records) initial_state records of
             Inl e \<Rightarrow> Inl e
           | Inr s \<Rightarrow> Inr (Node [(const_name, tree s)])))"

section \<open>app2.py: tree_to_md_lines and the conversion\<close>

function tree_to_md_lines :: "ustr \<Rightarrow> ntree \<Rightarrow> ustr \<Rightarrow> bool \<Rightarrow> ustr list" where
  "tree_to_md_lines name (Node kvs) prefix is_last =
     (let connector = (if is_last then ELL else TEE);
          line = (if prefix \<noteq> [] then prefix @ connector @ name else name);
          child_prefix = prefix @ (if is_last then BLANK else BAR)
      in line #
         concat (map (\<lambda>(idx, child).
             (let last_child = (idx = length kvs - 1)
              in tree_to_md_lines (fst child) (snd child) child_prefix last_child))
           (enumerate 0 kvs)))"
  by pat_completeness auto
termination
proof (relation "measure (\<lambda>(name, t, prefix, is_last). size t)", goal_cases)
  case 1
  show ?case by simp
next
  case (2 name kvs prefix is_last connector line child_prefix p idx child last_child)
  have "child \<in> set kvs \<Longrightarrow> size (snd child) < Suc (size_list (size_prod (\<lambda>_. 0) size) kvs)"
    by (induction kvs) auto
  moreover from 2 have "(idx, child) \<in> set (enumerate 0 kvs)"
    by simp
  then have "child \<in> set kvs"
    by (metis in_set_enumerate_eq nth_mem fst_conv snd_conv diff_zero add_0_right)
  ultimately show ?case by simp
qed

declare tree_to_md_lines.simps [simp del]

text \<open>\<open>"\n".join(lines)\<close> between the two fence lines.\<close>

fun join_lines :: "ustr list \<Rightarrow> ustr" where
  "join_lines [] = []"
| "join_lines [l] = l"
| "join_lines (l # l' # ls) = l @ [10] @ join_lines (l' # ls)"

definition fenced :: "ustr list \<Rightarrow> ustr" where
  "fenced ls = asc ''```text'' @ [10] @ join_lines ls @ [10] @ asc ''```''"

text \<open>\<open>convert_ts_const_to_md\<close>, from the text that \<open>path.read_text\<close> has read.\<close>

definition convert_ts_const_to_md :: "(nat \<Rightarrow> bool) \<Rightarrow> ustr \<Rightarrow> ustr \<Rightarrow> error + ustr" where
  "convert_ts_const_to_md ua source const_name =
     (case extract_const_block ua source const_name of
        Inl e \<Rightarrow> Inl e
      | Inr block_lines \<Rightarrow>
          (case find_property_keys block_lines of
             Inl e \<Rightarrow> Inl e
           | Inr records \<Rightarrow>
               (case build_tree_from_keys const_name records of
                  Inl e \<Rightarrow> Inl e
                | Inr t \<Rightarrow>
                    (case map_of (children t) const_name of
                       None \<Rightarrow> Inl KeyError
                     | Some root_subtree \<Rightarrow>
                         Inr (fenced (tree_to_md_lines const_name root_subtree [] True))))))"

text \<open>\<open>convert_json_to_md\<close> of app.py, from the value that \<open>json.load\<close> has parsed.\<close>

definition convert_json_to_md :: "'a jvalue \<Rightarrow> ustr" where
  "convert_json_to_md data = fenced (build_tree data 0)"

section \<open>Notions of the specification\<close>

subsection \<open>The renderer of parsed JSON\<close>

text \<open>The keys and indices of a value, on all levels.\<close>

fun count_entries :: "'a jvalue \<Rightarrow> nat" where
  "count_entries (JDict items) = (\<Sum>kv\<leftarrow>items. Suc (count_entries (snd kv)))"
| "count_entries (JList items) = (\<Sum>item\<leftarrow>items. Suc (count_entries item))"
| "count_entries (JScalar x) = 0"

text \<open>The scalars of a value, on all levels. Inside a dict or a list every scalar is the value
  of one entry, the entry after whose line the renderer appends a leaf marker.\<close>

fun count_scalars :: "'a jvalue \<Rightarrow> nat" where
  "count_scalars (JDict items) = (\<Sum>kv\<leftarrow>items. count_scalars (snd kv))"
| "count_scalars (JList items) = (\<Sum>item\<leftarrow>items. count_scalars item)"
| "count_scalars (JScalar x) = 1"

text \<open>A line that reads as a leaf marker: some number of bars, then the marker text. The number
  can only be the one that the length of the line gives.\<close>

definition is_leaf_marker :: "ustr \<Rightarrow> bool" where
  "is_leaf_marker l = (l = repeat BAR (int ((length l - length LEAF) div length BAR)) @ LEAF)"

definition non_marker_lines :: "ustr list \<Rightarrow> ustr list" where
  "non_marker_lines ls = filter (\<lambda>l. \<not> is_leaf_marker l) ls"

text \<open>The line of a dict key at depth \<open>d\<close>.\<close>

definition dict_key_line :: "int \<Rightarrow> bool \<Rightarrow> ustr \<Rightarrow> ustr" where
  "dict_key_line d is_last key =
     (if d = 0 then key else repeat BAR (d - 1) @ (if is_last then ELL else TEE) @ key)"

text \<open>
  The renderer once more, every line together with the statement of the source that appends
  it: \<open>EntryLine\<close> for the line of a key or an index (app.py lines 17, 19 and 32),
  \<open>LeafMarker\<close> for the marker appended after a scalar (lines 26 and 38). Apart from the
  marks it is \<open>build_tree\<close> word for word.
\<close>

datatype line_kind = EntryLine | LeafMarker

function build_tree_tagged :: "'a jvalue \<Rightarrow> int \<Rightarrow> (line_kind \<times> ustr) list" where
  "build_tree_tagged (JDict items) indent =
     concat (map (\<lambda>(i, kv).
         (let is_last = (i = length items - 1);
              connector = (if is_last then ELL else TEE)
          in [(EntryLine,
               if indent = 0 then fst kv else repeat BAR (indent - 1) @ connector @ fst kv)] @
             (case snd kv of
                JScalar x \<Rightarrow> [(LeafMarker, repeat BAR indent @ LEAF)]
              | v \<Rightarrow> build_tree_tagged v (indent + 1))))
       (enumerate 0 items))"
| "build_tree_tagged (JList items) indent =
     concat (map (\<lambda>(idx, item).
         (let is_last = (idx = length items - 1);
              connector = (if is_last then ELL else TEE)
          in [(EntryLine,
               repeat BAR (indent - 1) @ connector @ asc ''['' @ digits idx @ asc '']'')] @
             (case item of
                JScalar x \<Rightarrow> [(LeafMarker, repeat BAR indent @ LEAF)]
              | v \<Rightarrow> build_tree_tagged v (indent + 1))))
       (enumerate 0 items))"
| "build_tree_tagged (JScalar x) indent = []"
  by pat_completeness auto
termination
proof (relation "measure (\<lambda>(v, indent). size v)", goal_cases)
  case 1
  show ?case by simp
next
  case (2 items indent p i kv)
  have "kv \<in> set items \<Longrightarrow> size (snd kv) < Suc (size_list (size_prod (\<lambda>_. 0) size) items)"
    by (induction items) auto
  moreover from 2 have "(i, kv) \<in> set (enumerate 0 items)"
    by simp
  then have "kv \<in> set items"
    by (metis in_set_enumerate_eq nth_mem fst_conv snd_conv diff_zero add_0_right)
  ultimately show ?case using 2 by (cases kv) auto
next
  case (3 items indent p i kv)
  have "kv \<in> set items \<Longrightarrow> size (snd kv) < Suc (size_list (size_prod (\<lambda>_. 0) size) items)"
    by (induction items) auto
  moreover from 3 have "(i, kv) \<in> set (enumerate 0 items)"
    by simp
  then have "kv \<in> set items"
    by (metis in_set_enumerate_eq nth_mem fst_conv snd_conv diff_zero add_0_right)
  ultimately show ?case using 3 by (cases kv) auto
next
  case (4 items indent p idx item)
  have "item \<in> set items \<Longrightarrow> size item < Suc (size_list size items)"
    by (induction items) auto
  moreover from 4 have "(idx, item) \<in> set (enumerate 0 items)"
    by simp
  then have "item \<in> set items"
    by (metis in_set_enumerate_eq nth_mem fst_conv snd_conv diff_zero add_0_right)
  ultimately show ?case using 4 by auto
next
  case (5 items indent p idx item)
  have "item \<in> set items \<Longrightarrow> size item < Suc (size_list size items)"
    by (induction items) auto
  moreover from 5 have "(idx, item) \<in> set (enumerate 0 items)"
    by simp
  then have "item \<in> set items"
    by (metis in_set_enumerate_eq nth_mem fst_conv snd_conv diff_zero add_0_right)
  ultimately show ?case using 5 by auto
qed

declare build_tree_tagged.simps [simp del]

text \<open>The lines appended for keys and indices, and the leaf markers appended for scalars.\<close>

definition entry_lines :: "(line_kind \<times> ustr) list \<Rightarrow> ustr list" where
  "entry_lines ls = map snd (filter (\<lambda>p. fst p = EntryLine) ls)"

definition marker_lines :: "(line_kind \<times> ustr) list \<Rightarrow> ustr list" where
  "marker_lines ls = map snd (filter (\<lambda>p. fst p = LeafMarker) ls)"

subsection \<open>The named-tree renderer\<close>

text \<open>The line of a node, and the prefix handed to its children.\<close>

definition node_line :: "ustr \<Rightarrow> ustr \<Rightarrow> bool \<Rightarrow> ustr" where
  "node_line name prefix is_last =
     (if prefix = [] then name else prefix @ (if is_last then ELL else TEE) @ name)"

definition child_prefix_of :: "ustr \<Rightarrow> bool \<Rightarrow> ustr" where
  "child_prefix_of prefix is_last = prefix @ (if is_last then BLANK else BAR)"

text \<open>The children in stored order, only the final one marked as the last.\<close>

fun render_children :: "ustr \<Rightarrow> (ustr \<times> ntree) list \<Rightarrow> ustr list" where
  "render_children cp [] = []"
| "render_children cp (child # rest) =
     tree_to_md_lines (fst child) (snd child) cp (rest = []) @ render_children cp rest"

fun count_nodes :: "ntree \<Rightarrow> nat" where
  "count_nodes (Node kvs) = Suc (\<Sum>kv\<leftarrow>kvs. count_nodes (snd kv))"

subsection \<open>The block extractor\<close>

text \<open>The lines that stand before the first terminating line: all of them when no line
  terminates. These are the lines that the scan collects after the start line.\<close>

definition lines_before_terminator :: "(nat \<Rightarrow> bool) \<Rightarrow> ustr list \<Rightarrow> ustr list" where
  "lines_before_terminator ua post = takeWhile (\<lambda>l. \<not> is_terminator ua l) post"

subsection \<open>The hierarchy builder\<close>

text \<open>The stack runs from the entry of \<open>root_container\<close> at level \<open>-1\<close> upwards, the levels
  strictly increasing.\<close>

definition stack_increasing :: "stack \<Rightarrow> bool" where
  "stack_increasing st \<longleftrightarrow> st \<noteq> [] \<and> hd st = (- 1, []) \<and> sorted_wrt (<) (map fst st)"

text \<open>Every path on the stack leads to a container of the tree, as every reference on the
  stack of the source is a live dict.\<close>

definition paths_exist :: "build_state \<Rightarrow> bool" where
  "paths_exist s \<longleftrightarrow> list_all (\<lambda>e. get_at (tree s) (snd e) \<noteq> None) (stack s)"

text \<open>\<open>key\<close> is a key of the container at \<open>parent\<close>.\<close>

definition is_child_at :: "ntree \<Rightarrow> path \<Rightarrow> ustr \<Rightarrow> bool" where
  "is_child_at t parent key =
     (case get_at t parent of None \<Rightarrow> False | Some c \<Rightarrow> key \<in> set (map fst (children c)))"

section \<open>Properties of the renderer of parsed JSON\<close>

lemma is_leaf_marker_iff: "is_leaf_marker l \<longleftrightarrow> (\<exists>d. l = repeat BAR d @ LEAF)"
proof
  assume "is_leaf_marker l"
  then show "\<exists>d. l = repeat BAR d @ LEAF" unfolding is_leaf_marker_def by blast
next
  assume "\<exists>d. l = repeat BAR d @ LEAF"
  then obtain d where l: "l = repeat BAR d @ LEAF" by blast
  have "length (repeat BAR d) = nat d * 4"
    by (simp add: repeat_def length_concat sum_list_replicate BAR_def)
  then have "length l - length LEAF = nat d * 4"
    using l by simp
  then have "(length l - length LEAF) div length BAR = nat d"
    by (simp add: BAR_def)
  then have "repeat BAR (int ((length l - length LEAF) div length BAR)) = repeat BAR d"
    by (simp add: repeat_def)
  then show "is_leaf_marker l" unfolding is_leaf_marker_def using l by simp
qed

lemma sum_list_enumerate_snd:
  "(\<Sum>p\<leftarrow>enumerate n xs. g (snd p)) = (\<Sum>x\<leftarrow>xs. g x)"
  by (induction xs arbitrary: n) simp_all

lemma length_concat_enumerate:
  assumes "\<And>i x. (i, x) \<in> set (enumerate n xs) \<Longrightarrow> length (f (i, x)) = g x"
  shows "length (concat (map f (enumerate n xs))) = (\<Sum>x\<leftarrow>xs. g x)"
proof -
  have eq: "map (\<lambda>p. length (f p)) (enumerate n xs) = map (\<lambda>p. g (snd p)) (enumerate n xs)"
    by (rule map_cong [OF refl]) (use assms in \<open>simp add: split_paired_all\<close>)
  have "length (concat (map f (enumerate n xs))) = sum_list (map (\<lambda>p. length (f p)) (enumerate n xs))"
    by (simp add: length_concat comp_def)
  also have "\<dots> = (\<Sum>p\<leftarrow>enumerate n xs. g (snd p))"
    by (simp only: eq)
  also have "\<dots> = (\<Sum>x\<leftarrow>xs. g x)"
    by (rule sum_list_enumerate_snd)
  finally show ?thesis .
qed

lemma build_tree_dict_length:
  "length (build_tree (JDict items) d) =
     (\<Sum>kv\<leftarrow>items. Suc (case snd kv of JScalar x \<Rightarrow> 1 | v \<Rightarrow> length (build_tree v (d + 1))))"
  apply (subst build_tree.simps(1) [of items d])
  apply (rule length_concat_enumerate)
  apply (simp add: Let_def split: jvalue.split)
  done

lemma build_tree_list_length:
  "length (build_tree (JList items) d) =
     (\<Sum>item\<leftarrow>items. Suc (case item of JScalar x \<Rightarrow> 1 | v \<Rightarrow> length (build_tree v (d + 1))))"
  apply (subst build_tree.simps(2) [of items d])
  apply (rule length_concat_enumerate)
  apply (simp add: Let_def split: jvalue.split)
  done

lemma build_tree_line_count_aux:
  "(case v of JScalar x \<Rightarrow> 1 | w \<Rightarrow> length (build_tree w d)) = count_entries v + count_scalars v"
proof (induction v arbitrary: d)
  case (JDict items)
  have "length (build_tree (JDict items) d) =
      (\<Sum>kv\<leftarrow>items. Suc (case snd kv of JScalar x \<Rightarrow> 1 | v \<Rightarrow> length (build_tree v (d + 1))))"
    by (rule build_tree_dict_length)
  also have "\<dots> = (\<Sum>kv\<leftarrow>items. Suc (count_entries (snd kv) + count_scalars (snd kv)))"
  proof (rule arg_cong [where f = sum_list], rule map_cong [OF refl])
    fix kv
    assume "kv \<in> set items"
    moreover have "snd kv \<in> Basic_BNFs.snds kv"
      by (cases kv) simp
    ultimately have "(case snd kv of JScalar x \<Rightarrow> 1 | w \<Rightarrow> length (build_tree w (d + 1)))
        = count_entries (snd kv) + count_scalars (snd kv)"
      by (rule JDict.IH)
    then show "Suc (case snd kv of JScalar x \<Rightarrow> 1 | v \<Rightarrow> length (build_tree v (d + 1)))
        = Suc (count_entries (snd kv) + count_scalars (snd kv))"
      by (rule arg_cong)
  qed
  also have "\<dots> = count_entries (JDict items) + count_scalars (JDict items)"
    by (induction items) simp_all
  finally show ?case by simp
next
  case (JList items)
  have "length (build_tree (JList items) d) =
      (\<Sum>item\<leftarrow>items. Suc (case item of JScalar x \<Rightarrow> 1 | v \<Rightarrow> length (build_tree v (d + 1))))"
    by (rule build_tree_list_length)
  also have "\<dots> = (\<Sum>item\<leftarrow>items. Suc (count_entries item + count_scalars item))"
  proof (rule arg_cong [where f = sum_list], rule map_cong [OF refl])
    fix item
    assume "item \<in> set items"
    then have "(case item of JScalar x \<Rightarrow> 1 | w \<Rightarrow> length (build_tree w (d + 1)))
        = count_entries item + count_scalars item"
      by (rule JList.IH)
    then show "Suc (case item of JScalar x \<Rightarrow> 1 | v \<Rightarrow> length (build_tree v (d + 1)))
        = Suc (count_entries item + count_scalars item)"
      by (rule arg_cong)
  qed
  also have "\<dots> = count_entries (JList items) + count_scalars (JList items)"
    by (induction items) simp_all
  finally show ?case by simp
next
  case (JScalar x)
  show ?case by simp
qed


text \<open>
  C2, as the code has it. For the value \<open>{"a": {"b": 1, "c": 2}}\<close> at depth 0 the renderer
  gives five lines: the key \<open>a\<close>, the tee line of \<open>b\<close>, a leaf marker, the corner line of
  \<open>c\<close>, and a second leaf marker. Both markers are written at depth 1 and so both start with
  one bar: the marker under the last key \<open>c\<close> starts with a bar too, not with four blanks.
\<close>

theorem build_tree_scenario:
  "build_tree (JDict [(asc ''a'', JDict [(asc ''b'', JScalar (1::int)), (asc ''c'', JScalar 2)])]) 0
     = [asc ''a'', TEE @ asc ''b'', BAR @ LEAF, ELL @ asc ''c'', BAR @ LEAF]"
  by code_simp

text \<open>
  C2, as the claim states it: the fifth line would be four blanks and the marker text.
  The renderer does not give that list.
\<close>

theorem build_tree_scenario_counterexample:
  "build_tree (JDict [(asc ''a'', JDict [(asc ''b'', JScalar (1::int)), (asc ''c'', JScalar 2)])]) 0
     \<noteq> [asc ''a'', TEE @ asc ''b'', BAR @ LEAF, ELL @ asc ''c'', BLANK @ LEAF]"
  by code_simp

lemma nth_concat_pairs:
  "i < length xs \<Longrightarrow>
     concat (map (\<lambda>x. [f x, g x]) xs) ! (2 * i) = f (xs ! i) \<and>
     concat (map (\<lambda>x. [f x, g x]) xs) ! (2 * i + 1) = g (xs ! i)"
proof (induction xs arbitrary: i)
  case Nil
  then show ?case by simp
next
  case (Cons x xs)
  show ?case
  proof (cases i)
    case 0
    then show ?thesis by simp
  next
    case (Suc j)
    with Cons.prems have "j < length xs" by simp
    from Cons.IH [OF this] Suc show ?thesis by simp
  qed
qed


text \<open>
  C6. A dict all of whose values are scalars, rendered at depth \<open>d\<close>, gives for every entry
  its key line and then one leaf marker, the bar repeated \<open>d\<close> times before the marker text:
  two lines an entry, the second of each pair the marker.
\<close>

theorem build_tree_scalar_dict:
  assumes "\<forall>kv \<in> set items. \<exists>x. snd kv = JScalar x"
  shows "build_tree (JDict items) d =
           concat (map (\<lambda>(i, kv). [dict_key_line d (i = length items - 1) (fst kv), repeat BAR d @ LEAF])
                       (enumerate 0 items)) \<and>
         length (build_tree (JDict items) d) = 2 * length items \<and>
         (\<forall>i < length items.
            build_tree (JDict items) d ! (2 * i) = dict_key_line d (i = length items - 1) (fst (items ! i)) \<and>
            build_tree (JDict items) d ! (2 * i + 1) = repeat BAR d @ LEAF)"
proof -
  let ?f = "\<lambda>p. dict_key_line d (fst p = length items - 1) (fst (snd p))"
  let ?g = "\<lambda>p::nat \<times> ustr \<times> 'a jvalue. repeat BAR d @ LEAF"
  have eq: "build_tree (JDict items) d = concat (map (\<lambda>p. [?f p, ?g p]) (enumerate 0 items))"
  proof (subst build_tree.simps(1) [of items d], rule arg_cong [where f = concat], rule map_cong [OF refl])
    fix p
    assume "p \<in> set (enumerate 0 items)"
    then have "snd p \<in> set items"
      by (metis in_set_enumerate_eq nth_mem diff_zero add_0_right)
    with assms obtain x where "snd (snd p) = JScalar x" by blast
    then show "(case p of (i, kv) \<Rightarrow>
         (let is_last = (i = length items - 1);
              connector = (if is_last then ELL else TEE)
          in [if d = 0 then fst kv else repeat BAR (d - 1) @ connector @ fst kv] @
             (case snd kv of
                JScalar x \<Rightarrow> [repeat BAR d @ LEAF]
              | v \<Rightarrow> build_tree v (d + 1)))) = [?f p, ?g p]"
      by (cases p) (simp add: Let_def dict_key_line_def)
  qed
  have len: "length (build_tree (JDict items) d) = 2 * length items"
    unfolding eq by (simp add: length_concat comp_def sum_list_triv)
  have nth: "build_tree (JDict items) d ! (2 * i) = dict_key_line d (i = length items - 1) (fst (items ! i)) \<and>
       build_tree (JDict items) d ! (2 * i + 1) = repeat BAR d @ LEAF" if "i < length items" for i
    unfolding eq using nth_concat_pairs [of i "enumerate 0 items" ?f ?g] that
    by (simp add: nth_enumerate_eq)
  have "concat (map (\<lambda>p. [?f p, ?g p]) (enumerate 0 items)) =
      concat (map (\<lambda>(i, kv). [dict_key_line d (i = length items - 1) (fst kv), repeat BAR d @ LEAF])
                       (enumerate 0 items))"
    by (simp add: split_def)
  with eq len nth show ?thesis by simp
qed


text \<open>The dict \<open>{"b": 1, "c": 2}\<close> at depth 1.\<close>

theorem build_tree_scalar_dict_witness:
  "build_tree (JDict [(asc ''b'', JScalar (1::int)), (asc ''c'', JScalar 2)]) 1 =
     [TEE @ asc ''b'', BAR @ LEAF, ELL @ asc ''c'', BAR @ LEAF]"
  using build_tree_scalar_dict [of "[(asc ''b'', JScalar (1::int)), (asc ''c'', JScalar 2)]" 1]
  by (simp add: dict_key_line_def repeat_def)

text \<open>
  The number of all lines: one for every key and index and one more, the leaf marker, for
  every scalar. A scalar at the root gives no line.
\<close>

lemma build_tree_line_count:
  "length (build_tree (JDict items) d) = count_entries (JDict items) + count_scalars (JDict items) \<and>
   length (build_tree (JList xs) d) = count_entries (JList xs) + count_scalars (JList xs) \<and>
   build_tree (JScalar x) d = []"
  using build_tree_line_count_aux [where v = "JDict items" and d = d]
    build_tree_line_count_aux [where v = "JList xs" and d = d]
  by (simp add: build_tree.simps(3))

lemma entry_lines_concat: "entry_lines (concat xss) = concat (map entry_lines xss)"
  by (induction xss) (simp_all add: entry_lines_def)

lemma marker_lines_concat: "marker_lines (concat xss) = concat (map marker_lines xss)"
  by (induction xss) (simp_all add: marker_lines_def)

lemma tagged_chunk_erase:
  assumes "\<And>d. map snd (build_tree_tagged w d) = build_tree w d"
  shows "map snd (case w of JScalar x \<Rightarrow> [(LeafMarker, repeat BAR d @ LEAF)]
                   | v \<Rightarrow> build_tree_tagged v (d + 1))
       = (case w of JScalar x \<Rightarrow> [repeat BAR d @ LEAF] | v \<Rightarrow> build_tree v (d + 1))"
  using assms by (cases w) simp_all

lemma build_tree_tagged_erase:
  "map snd (build_tree_tagged v d) = build_tree v d"
proof (induction v arbitrary: d)
  case (JDict items)
  show ?case
  proof (subst build_tree_tagged.simps(1) [of items d], subst build_tree.simps(1) [of items d],
      subst map_concat, rule arg_cong [where f = concat], subst map_map, rule map_cong [OF refl])
    fix p
    assume "p \<in> set (enumerate 0 items)"
    then have "snd p \<in> set items"
      by (metis in_set_enumerate_eq nth_mem diff_zero add_0_right)
    moreover have "snd (snd p) \<in> Basic_BNFs.snds (snd p)"
      by (cases "snd p") simp
    ultimately have "\<And>d. map snd (build_tree_tagged (snd (snd p)) d) = build_tree (snd (snd p)) d"
      by (rule JDict.IH)
    from tagged_chunk_erase [OF this, of d]
    show "(map snd \<circ> (\<lambda>(i, kv).
         (let is_last = (i = length items - 1);
              connector = (if is_last then ELL else TEE)
          in [(EntryLine,
               if d = 0 then fst kv else repeat BAR (d - 1) @ connector @ fst kv)] @
             (case snd kv of
                JScalar x \<Rightarrow> [(LeafMarker, repeat BAR d @ LEAF)]
              | v \<Rightarrow> build_tree_tagged v (d + 1))))) p
      = (case p of (i, kv) \<Rightarrow>
         (let is_last = (i = length items - 1);
              connector = (if is_last then ELL else TEE)
          in [if d = 0 then fst kv else repeat BAR (d - 1) @ connector @ fst kv] @
             (case snd kv of
                JScalar x \<Rightarrow> [repeat BAR d @ LEAF]
              | v \<Rightarrow> build_tree v (d + 1))))"
      by (cases p) (simp add: Let_def)
  qed
next
  case (JList items)
  show ?case
  proof (subst build_tree_tagged.simps(2) [of items d], subst build_tree.simps(2) [of items d],
      subst map_concat, rule arg_cong [where f = concat], subst map_map, rule map_cong [OF refl])
    fix p
    assume "p \<in> set (enumerate 0 items)"
    then have "snd p \<in> set items"
      by (metis in_set_enumerate_eq nth_mem diff_zero add_0_right)
    then have "\<And>d. map snd (build_tree_tagged (snd p) d) = build_tree (snd p) d"
      by (rule JList.IH)
    from tagged_chunk_erase [OF this, of d]
    show "(map snd \<circ> (\<lambda>(idx, item).
         (let is_last = (idx = length items - 1);
              connector = (if is_last then ELL else TEE)
          in [(EntryLine,
               repeat BAR (d - 1) @ connector @ asc ''['' @ digits idx @ asc '']'')] @
             (case item of
                JScalar x \<Rightarrow> [(LeafMarker, repeat BAR d @ LEAF)]
              | v \<Rightarrow> build_tree_tagged v (d + 1))))) p
      = (case p of (idx, item) \<Rightarrow>
         (let is_last = (idx = length items - 1);
              connector = (if is_last then ELL else TEE)
          in [repeat BAR (d - 1) @ connector @ asc ''['' @ digits idx @ asc '']''] @
             (case item of
                JScalar x \<Rightarrow> [repeat BAR d @ LEAF]
              | v \<Rightarrow> build_tree v (d + 1))))"
      by (cases p) (simp add: Let_def)
  qed
next
  case (JScalar x)
  show ?case by (simp add: build_tree_tagged.simps(3) build_tree.simps(3))
qed

lemma tagged_dict_entry_count:
  "length (entry_lines (build_tree_tagged (JDict items) d)) =
     (\<Sum>kv\<leftarrow>items. Suc (length (entry_lines
        (case snd kv of JScalar x \<Rightarrow> [(LeafMarker, repeat BAR d @ LEAF)]
         | v \<Rightarrow> build_tree_tagged v (d + 1)))))"
  apply (subst build_tree_tagged.simps(1) [of items d])
  apply (subst entry_lines_concat)
  apply (subst map_map)
  apply (rule length_concat_enumerate)
  apply (simp add: Let_def entry_lines_def)
  done

lemma tagged_list_entry_count:
  "length (entry_lines (build_tree_tagged (JList items) d)) =
     (\<Sum>item\<leftarrow>items. Suc (length (entry_lines
        (case item of JScalar x \<Rightarrow> [(LeafMarker, repeat BAR d @ LEAF)]
         | v \<Rightarrow> build_tree_tagged v (d + 1)))))"
  apply (subst build_tree_tagged.simps(2) [of items d])
  apply (subst entry_lines_concat)
  apply (subst map_map)
  apply (rule length_concat_enumerate)
  apply (simp add: Let_def entry_lines_def)
  done

lemma tagged_chunk_entries:
  assumes "\<And>d. length (entry_lines (build_tree_tagged w d)) = count_entries w"
  shows "Suc (length (entry_lines (case w of JScalar x \<Rightarrow> [(LeafMarker, m)]
                             | v \<Rightarrow> build_tree_tagged v (d + 1))))
       = Suc (count_entries w)"
proof (cases w)
  case (JDict x1)
  show ?thesis unfolding JDict jvalue.case by (simp only: assms [unfolded JDict])
next
  case (JList x2)
  show ?thesis unfolding JList jvalue.case by (simp only: assms [unfolded JList])
next
  case (JScalar x3)
  show ?thesis unfolding JScalar by (simp add: entry_lines_def)
qed

lemma entry_lines_count:
  "length (entry_lines (build_tree_tagged v d)) = count_entries v"
proof (induction v arbitrary: d)
  case (JDict items)
  have "length (entry_lines (build_tree_tagged (JDict items) d)) =
     (\<Sum>kv\<leftarrow>items. Suc (length (entry_lines
        (case snd kv of JScalar x \<Rightarrow> [(LeafMarker, repeat BAR d @ LEAF)]
         | v \<Rightarrow> build_tree_tagged v (d + 1)))))"
    by (rule tagged_dict_entry_count)
  also have "\<dots> = (\<Sum>kv\<leftarrow>items. Suc (count_entries (snd kv)))"
  proof (rule arg_cong [where f = sum_list], rule map_cong [OF refl])
    fix kv
    assume "kv \<in> set items"
    moreover have "snd kv \<in> Basic_BNFs.snds kv"
      by (cases kv) simp
    ultimately have "\<And>d. length (entry_lines (build_tree_tagged (snd kv) d)) = count_entries (snd kv)"
      by (rule JDict.IH)
    then show "Suc (length (entry_lines
        (case snd kv of JScalar x \<Rightarrow> [(LeafMarker, repeat BAR d @ LEAF)]
         | v \<Rightarrow> build_tree_tagged v (d + 1)))) = Suc (count_entries (snd kv))"
      by (rule tagged_chunk_entries)
  qed
  finally show ?case by simp
next
  case (JList items)
  have "length (entry_lines (build_tree_tagged (JList items) d)) =
     (\<Sum>item\<leftarrow>items. Suc (length (entry_lines
        (case item of JScalar x \<Rightarrow> [(LeafMarker, repeat BAR d @ LEAF)]
         | v \<Rightarrow> build_tree_tagged v (d + 1)))))"
    by (rule tagged_list_entry_count)
  also have "\<dots> = (\<Sum>item\<leftarrow>items. Suc (count_entries item))"
  proof (rule arg_cong [where f = sum_list], rule map_cong [OF refl])
    fix item
    assume "item \<in> set items"
    then have "\<And>d. length (entry_lines (build_tree_tagged item d)) = count_entries item"
      by (rule JList.IH)
    then show "Suc (length (entry_lines
        (case item of JScalar x \<Rightarrow> [(LeafMarker, repeat BAR d @ LEAF)]
         | v \<Rightarrow> build_tree_tagged v (d + 1)))) = Suc (count_entries item)"
      by (rule tagged_chunk_entries)
  qed
  finally show ?case by simp
next
  case (JScalar x)
  show ?case by (simp add: build_tree_tagged.simps(3) entry_lines_def)
qed

lemma entry_and_marker_lines:
  "length ls = length (entry_lines ls) + length (marker_lines ls)"
proof -
  have "(\<lambda>p::line_kind \<times> ustr. fst p = LeafMarker) = (\<lambda>p. \<not> fst p = EntryLine)"
    by (rule ext) (metis line_kind.exhaust line_kind.distinct(1))
  then show ?thesis
    by (simp add: entry_lines_def marker_lines_def sum_length_filter_compl)
qed

text \<open>
  C7, amended. The lines of the renderer are the lines of the marked renderer without the
  marks. The lines that are not leaf markers, that is the lines appended for keys and
  indices, each counted as often as it is appended, are as many as the keys and indices on all
  levels; all other lines are the leaf markers appended for scalars.
\<close>

theorem build_tree_entry_line_count:
  "map snd (build_tree_tagged v d) = build_tree v d \<and>
   length (entry_lines (build_tree_tagged v d)) = count_entries v \<and>
   length (build_tree v d)
     = length (entry_lines (build_tree_tagged v d)) + length (marker_lines (build_tree_tagged v d))"
proof -
  have "length (build_tree v d) = length (build_tree_tagged v d)"
    using build_tree_tagged_erase [of v d] by (metis length_map)
  then show ?thesis
    using entry_and_marker_lines [of "build_tree_tagged v d"]
    by (simp add: build_tree_tagged_erase entry_lines_count)
qed

text \<open>
  C7, as the claim states it, counting the distinct lines that are not leaf markers. In
  \<open>{"a": {"x": 1}, "b": {"x": 2}}\<close> there are four keys, and the two lines of \<open>x\<close> are the
  same text, so there are three distinct lines, whether the lines that are not leaf markers are
  told by their text or by the statement that appends them.
\<close>

theorem build_tree_distinct_lines_counterexample:
  "card (set (non_marker_lines (build_tree
      (JDict [(asc ''a'', JDict [(asc ''x'', JScalar (1::int))]),
              (asc ''b'', JDict [(asc ''x'', JScalar 2)])]) 0)))
   \<noteq> count_entries
      (JDict [(asc ''a'', JDict [(asc ''x'', JScalar (1::int))]),
              (asc ''b'', JDict [(asc ''x'', JScalar 2)])]) \<and>
   card (set (entry_lines (build_tree_tagged
      (JDict [(asc ''a'', JDict [(asc ''x'', JScalar (1::int))]),
              (asc ''b'', JDict [(asc ''x'', JScalar 2)])]) 0)))
   \<noteq> count_entries
      (JDict [(asc ''a'', JDict [(asc ''x'', JScalar (1::int))]),
              (asc ''b'', JDict [(asc ''x'', JScalar 2)])])"
  by code_simp

text \<open>
  Why the lines are told apart by the statement that appends them and not by their text: in
  \<open>{"a": {"value": 1}}\<close> the line of the key \<open>value\<close>, a last key at depth 1, reads as a
  leaf marker of depth 0.
\<close>

lemma key_reads_as_marker:
  "build_tree (JDict [(asc ''a'', JDict [(asc ''value'', JScalar (1::int))])]) 0
     = [asc ''a'', ELL @ asc ''value'', BAR @ LEAF] \<and>
   non_marker_lines (build_tree (JDict [(asc ''a'', JDict [(asc ''value'', JScalar (1::int))])]) 0)
     = [asc ''a''] \<and>
   entry_lines (build_tree_tagged (JDict [(asc ''a'', JDict [(asc ''value'', JScalar (1::int))])]) 0)
     = [asc ''a'', ELL @ asc ''value'']"
  by code_simp

section \<open>Running the model on text\<close>

lemmas eval_text = asc_def splitlines_def is_linebreak_def is_space_def is_word_def ascii_only_def
  startswith_def after_literal_def word_boundary_def

lemmas eval_extract = const_pattern_search_def const_pattern_at_def close_match_def
  export_default_search_def export_default_at_def is_terminator_def lines_before_terminator_def

lemmas eval_builder = indent_step_def diffs_def record_level_def process_record_def
  initial_state_def pop_to.simps

section \<open>Properties of the named-tree renderer\<close>

text \<open>
  C1, on the code. From the body lines \<open>"  foo: 1"\<close>, \<open>"  bar: {"\<close>, \<open>"    baz: 2"\<close>,
  \<open>"  }"\<close> and the name \<open>root\<close>, \<open>find_property_keys\<close> gives the records (2, foo), (2, bar),
  (4, baz) and \<open>build_tree_from_keys\<close> gives the hierarchy of the claim: root with the children
  foo and bar, bar with the child baz. \<open>tree_to_md_lines\<close>, called with the empty prefix and
  \<open>is_last = True\<close>, then hands the prefix of four blanks to the children of the root, so its
  lines are \<open>root\<close>, four blanks and the tee line of foo, four blanks and the corner line of
  bar, eight blanks and the corner line of baz: not the four lines of the claim, in which the
  children of the root start with their connector.
\<close>

theorem named_tree_scenario:
  "find_property_keys [asc ''  foo: 1'', asc ''  bar: {'', asc ''    baz: 2'', asc ''  }'']
     = Inr [(2, asc ''foo''), (2, asc ''bar''), (4, asc ''baz'')] \<and>
   build_tree_from_keys (asc ''root'') [(2, asc ''foo''), (2, asc ''bar''), (4, asc ''baz'')]
     = Inr (Node [(asc ''root'',
          Node [(asc ''foo'', Node []), (asc ''bar'', Node [(asc ''baz'', Node [])])])]) \<and>
   tree_to_md_lines (asc ''root'')
       (Node [(asc ''foo'', Node []), (asc ''bar'', Node [(asc ''baz'', Node [])])]) [] True
     = [asc ''root'', BLANK @ TEE @ asc ''foo'', BLANK @ ELL @ asc ''bar'',
        BLANK @ BLANK @ ELL @ asc ''baz''] \<and>
   tree_to_md_lines (asc ''root'')
       (Node [(asc ''foo'', Node []), (asc ''bar'', Node [(asc ''baz'', Node [])])]) [] True
     \<noteq> [asc ''root'', TEE @ asc ''foo'', ELL @ asc ''bar'', BLANK @ ELL @ asc ''baz'']"
proof (intro conjI)
  show "find_property_keys [asc ''  foo: 1'', asc ''  bar: {'', asc ''    baz: 2'', asc ''  }'']
     = Inr [(2, asc ''foo''), (2, asc ''bar''), (4, asc ''baz'')]"
    by (simp add: find_property_keys_def strip_def startswith_def ident_key_match_def
        quoted_key_match_def is_space_def is_ident_def is_quote_def asc_def Let_def)
  show "build_tree_from_keys (asc ''root'') [(2, asc ''foo''), (2, asc ''bar''), (4, asc ''baz'')]
     = Inr (Node [(asc ''root'',
          Node [(asc ''foo'', Node []), (asc ''bar'', Node [(asc ''baz'', Node [])])])])"
    by (simp add: build_tree_from_keys_def indent_step_def diffs_def record_level_def
        process_record_def initial_state_def pop_to.simps asc_def Let_def)
  show "tree_to_md_lines (asc ''root'')
       (Node [(asc ''foo'', Node []), (asc ''bar'', Node [(asc ''baz'', Node [])])]) [] True
     = [asc ''root'', BLANK @ TEE @ asc ''foo'', BLANK @ ELL @ asc ''bar'',
        BLANK @ BLANK @ ELL @ asc ''baz'']"
    by (simp add: tree_to_md_lines.simps BLANK_def TEE_def ELL_def asc_def Let_def)
  show "tree_to_md_lines (asc ''root'')
       (Node [(asc ''foo'', Node []), (asc ''bar'', Node [(asc ''baz'', Node [])])]) [] True
     \<noteq> [asc ''root'', TEE @ asc ''foo'', ELL @ asc ''bar'', BLANK @ ELL @ asc ''baz'']"
    by (simp add: tree_to_md_lines.simps BLANK_def TEE_def ELL_def asc_def Let_def)
qed

lemma children_chunks:
  "m = n + length kvs - 1 \<Longrightarrow>
     concat (map (\<lambda>(idx, child). tree_to_md_lines (fst child) (snd child) cp (idx = m))
                 (enumerate n kvs))
       = render_children cp kvs"
proof (induction kvs arbitrary: n)
  case Nil
  show ?case by simp
next
  case (Cons child rest)
  from Cons.prems have "(n = m) = (rest = [])" by auto
  moreover from Cons.prems have "m = Suc n + length rest - 1" by simp
  note Cons.IH [OF this]
  ultimately show ?case by simp
qed

lemma tree_to_md_lines_unfold:
  "tree_to_md_lines name (Node kvs) prefix is_last =
     node_line name prefix is_last # render_children (child_prefix_of prefix is_last) kvs"
proof -
  have "concat (map (\<lambda>(idx, child). tree_to_md_lines (fst child) (snd child)
            (child_prefix_of prefix is_last) (idx = length kvs - 1)) (enumerate 0 kvs))
      = render_children (child_prefix_of prefix is_last) kvs"
    by (rule children_chunks) simp
  then show ?thesis
    by (subst tree_to_md_lines.simps)
       (auto simp add: Let_def node_line_def child_prefix_of_def)
qed

lemma length_render_children:
  assumes "\<And>kv p l. kv \<in> set kvs \<Longrightarrow> length (tree_to_md_lines (fst kv) (snd kv) p l) = count_nodes (snd kv)"
  shows "length (render_children cp kvs) = (\<Sum>kv\<leftarrow>kvs. count_nodes (snd kv))"
  using assms by (induction kvs) simp_all

lemma length_tree_to_md_lines:
  "length (tree_to_md_lines name t prefix is_last) = count_nodes t"
proof (induction t arbitrary: name prefix is_last)
  case (Node kvs)
  have "length (render_children (child_prefix_of prefix is_last) kvs) = (\<Sum>kv\<leftarrow>kvs. count_nodes (snd kv))"
  proof (rule length_render_children)
    fix kv :: "ustr \<times> ntree" and p l
    assume "kv \<in> set kvs"
    moreover have "snd kv \<in> Basic_BNFs.snds kv" by (cases kv) simp
    ultimately show "length (tree_to_md_lines (fst kv) (snd kv) p l) = count_nodes (snd kv)"
      by (rule Node.IH)
  qed
  then show ?case by (simp add: tree_to_md_lines_unfold)
qed

text \<open>
  C3. For every node, \<open>tree_to_md_lines\<close> gives first the line of the node, the bare name
  when the prefix is empty and otherwise prefix, connector and name, the connector being the
  corner for a last child and the tee otherwise; then the lines of the children in stored
  order, under the prefix extended by four blanks for a last child and by the bar otherwise,
  only the final child marked as the last. A node with no children gives its own line only,
  and the first call, with the empty prefix and \<open>is_last = True\<close>, gives the bare name and the
  children under four blanks. Every node gives one line and nothing else is appended.
\<close>

theorem tree_to_md_lines_spec:
  "tree_to_md_lines name (Node kvs) prefix is_last =
     node_line name prefix is_last # render_children (child_prefix_of prefix is_last) kvs \<and>
   tree_to_md_lines name (Node []) prefix is_last = [node_line name prefix is_last] \<and>
   tree_to_md_lines name (Node kvs) [] True = name # render_children BLANK kvs \<and>
   length (tree_to_md_lines name t prefix is_last) = count_nodes t"
  by (simp add: tree_to_md_lines_unfold length_tree_to_md_lines node_line_def child_prefix_of_def)

section \<open>Properties of the block extractor\<close>

lemma scan_lines_inside:
  "scan_lines ua name True acc ls = (True, acc @ lines_before_terminator ua ls)"
  by (induction ls arbitrary: acc) (simp_all add: lines_before_terminator_def)

lemma scan_lines_outside:
  "scan_lines ua name False acc ls =
     (case dropWhile (\<lambda>l. \<not> const_pattern_search ua name l) ls of
        [] \<Rightarrow> (False, acc)
      | start # post \<Rightarrow> (True, acc @ lines_before_terminator ua post))"
  by (induction ls) (simp_all add: scan_lines_inside)

lemma extract_const_block_eq:
  "extract_const_block ua source const_name =
     (case dropWhile (\<lambda>l. \<not> const_pattern_search ua const_name l) (splitlines source) of
        [] \<Rightarrow> Inl CouldNotFindConst
      | start # post \<Rightarrow>
          (if lines_before_terminator ua post = [] then Inl NoObjectBody
           else Inr (lines_before_terminator ua post)))"
proof (cases "dropWhile (\<lambda>l. \<not> const_pattern_search ua const_name l) (splitlines source)")
  case Nil
  show ?thesis unfolding extract_const_block_def scan_lines_outside Let_def Nil by simp
next
  case (Cons start post)
  show ?thesis unfolding extract_const_block_def scan_lines_outside Let_def Cons by simp
qed

lemma first_match_decomp:
  "dropWhile (\<lambda>l. \<not> P l) ls = start # post \<longleftrightarrow>
     (\<exists>pre. ls = pre @ start # post \<and> (\<forall>l \<in> set pre. \<not> P l) \<and> P start)"
proof
  assume d: "dropWhile (\<lambda>l. \<not> P l) ls = start # post"
  then have "ls = takeWhile (\<lambda>l. \<not> P l) ls @ start # post"
    by (metis takeWhile_dropWhile_id)
  moreover have "\<forall>l \<in> set (takeWhile (\<lambda>l. \<not> P l) ls). \<not> P l"
    by (auto dest: set_takeWhileD)
  moreover have "P start"
    using d hd_dropWhile [of "\<lambda>l. \<not> P l" ls] by auto
  ultimately show "\<exists>pre. ls = pre @ start # post \<and> (\<forall>l \<in> set pre. \<not> P l) \<and> P start"
    by blast
next
  assume "\<exists>pre. ls = pre @ start # post \<and> (\<forall>l \<in> set pre. \<not> P l) \<and> P start"
  then obtain pre where "ls = pre @ start # post" "\<forall>l \<in> set pre. \<not> P l" "P start"
    by blast
  then show "dropWhile (\<lambda>l. \<not> P l) ls = start # post"
    by (simp add: dropWhile_append)
qed

text \<open>
  C8. \<open>extract_const_block\<close> raises the error of the declaration not found exactly when no
  line of the input matches the start pattern; it raises the error of the empty body exactly
  when some line matches the start pattern and, after the first such line, no line stands
  before a terminating line: zero lines are collected.
\<close>

theorem extract_const_block_errors:
  "(extract_const_block ua source const_name = Inl CouldNotFindConst \<longleftrightarrow>
      \<not> (\<exists>line \<in> set (splitlines source). const_pattern_search ua const_name line)) \<and>
   (extract_const_block ua source const_name = Inl NoObjectBody \<longleftrightarrow>
      (\<exists>pre start post.
         splitlines source = pre @ start # post \<and>
         (\<forall>l \<in> set pre. \<not> const_pattern_search ua const_name l) \<and>
         const_pattern_search ua const_name start \<and>
         lines_before_terminator ua post = []))"
proof (cases "dropWhile (\<lambda>l. \<not> const_pattern_search ua const_name l) (splitlines source)")
  case Nil
  then have none: "\<forall>l \<in> set (splitlines source). \<not> const_pattern_search ua const_name l"
    by (simp add: dropWhile_eq_Nil_conv)
  have "extract_const_block ua source const_name = Inl CouldNotFindConst"
    unfolding extract_const_block_eq Nil by simp
  moreover have "\<not> (\<exists>pre start post.
         splitlines source = pre @ start # post \<and>
         (\<forall>l \<in> set pre. \<not> const_pattern_search ua const_name l) \<and>
         const_pattern_search ua const_name start \<and>
         lines_before_terminator ua post = [])"
    using none by auto
  ultimately show ?thesis using none by simp
next
  case (Cons start post)
  then have dec: "\<exists>pre. splitlines source = pre @ start # post \<and>
      (\<forall>l \<in> set pre. \<not> const_pattern_search ua const_name l) \<and> const_pattern_search ua const_name start"
    by (simp add: first_match_decomp)
  then have some: "\<exists>line \<in> set (splitlines source). const_pattern_search ua const_name line"
    by auto
  have res: "extract_const_block ua source const_name =
      (if lines_before_terminator ua post = [] then Inl NoObjectBody
       else Inr (lines_before_terminator ua post))"
    unfolding extract_const_block_eq Cons by simp
  have uniq: "post' = post"
    if "splitlines source = pre' @ start' # post'"
      "\<forall>l \<in> set pre'. \<not> const_pattern_search ua const_name l"
      "const_pattern_search ua const_name start'" for pre' start' post'
  proof -
    from that have "dropWhile (\<lambda>l. \<not> const_pattern_search ua const_name l) (splitlines source) = start' # post'"
      by (subst first_match_decomp) blast
    with Cons show ?thesis by simp
  qed
  show ?thesis
  proof (cases "lines_before_terminator ua post = []")
    case True
    with dec have "\<exists>pre start post.
         splitlines source = pre @ start # post \<and>
         (\<forall>l \<in> set pre. \<not> const_pattern_search ua const_name l) \<and>
         const_pattern_search ua const_name start \<and>
         lines_before_terminator ua post = []"
      by blast
    with res True some show ?thesis by simp
  next
    case False
    have "\<not> (\<exists>pre start post.
         splitlines source = pre @ start # post \<and>
         (\<forall>l \<in> set pre. \<not> const_pattern_search ua const_name l) \<and>
         const_pattern_search ua const_name start \<and>
         lines_before_terminator ua post = [])"
      using uniq False by blast
    with res False some show ?thesis by simp
  qed
qed

text \<open>The text \<open>const x = {\<close>, \<open>};\<close> has an empty body, and the text \<open>let y = 1;\<close> has no
  declaration of \<open>x\<close>.\<close>

theorem extract_const_block_errors_witness:
  "extract_const_block ascii_only (asc ''const x = {'' @ [10] @ asc ''};'') (asc ''x'')
     = Inl NoObjectBody \<and>
   extract_const_block ascii_only (asc ''let y = 1;'') (asc ''x'') = Inl CouldNotFindConst"
proof -
  have "splitlines (asc ''const x = {'' @ [10] @ asc ''};'') = [] @ asc ''const x = {'' # [asc ''};''] \<and>
      (\<forall>l \<in> set []. \<not> const_pattern_search ascii_only (asc ''x'') l) \<and>
      const_pattern_search ascii_only (asc ''x'') (asc ''const x = {'') \<and>
      lines_before_terminator ascii_only [asc ''};''] = []"
    by (simp add: eval_text eval_extract upt_rec)
  then have "\<exists>pre start post.
      splitlines (asc ''const x = {'' @ [10] @ asc ''};'') = pre @ start # post \<and>
      (\<forall>l \<in> set pre. \<not> const_pattern_search ascii_only (asc ''x'') l) \<and>
      const_pattern_search ascii_only (asc ''x'') start \<and>
      lines_before_terminator ascii_only post = []"
    by blast
  then have a: "extract_const_block ascii_only (asc ''const x = {'' @ [10] @ asc ''};'') (asc ''x'')
      = Inl NoObjectBody"
    using extract_const_block_errors
      [of ascii_only "asc ''const x = {'' @ [10] @ asc ''};''" "asc ''x''"]
    by blast
  have "\<not> (\<exists>line \<in> set (splitlines (asc ''let y = 1;'')).
      const_pattern_search ascii_only (asc ''x'') line)"
    by (simp add: eval_text eval_extract upt_rec)
  then have b: "extract_const_block ascii_only (asc ''let y = 1;'') (asc ''x'') = Inl CouldNotFindConst"
    using extract_const_block_errors [of ascii_only "asc ''let y = 1;''" "asc ''x''"]
    by blast
  from a b show ?thesis by simp
qed

text \<open>
  C10, amended. When a line matches the start pattern, no line after the first such line
  matches a termination pattern, and at least one line follows it, \<open>extract_const_block\<close>
  returns every line after the start line up to the end of the input.
\<close>

theorem extract_const_block_without_terminator:
  assumes "splitlines source = pre @ start # post"
    and "\<forall>l \<in> set pre. \<not> const_pattern_search ua const_name l"
    and "const_pattern_search ua const_name start"
    and "\<forall>l \<in> set post. \<not> is_terminator ua l"
    and "post \<noteq> []"
  shows "extract_const_block ua source const_name = Inr post"
proof -
  from assms(1-3) have "dropWhile (\<lambda>l. \<not> const_pattern_search ua const_name l) (splitlines source) = start # post"
    by (subst first_match_decomp) blast
  moreover from assms(4) have "lines_before_terminator ua post = post"
    by (simp add: lines_before_terminator_def)
  ultimately show ?thesis using assms(5) unfolding extract_const_block_eq by simp
qed

text \<open>The text \<open>const x = {\<close>, \<open>  a: 1,\<close> ends without a terminating line.\<close>

theorem extract_const_block_without_terminator_witness:
  "extract_const_block ascii_only (asc ''const x = {'' @ [10] @ asc ''  a: 1,'') (asc ''x'')
     = Inr [asc ''  a: 1,'']"
  by (rule extract_const_block_without_terminator
        [where pre = "[]" and start = "asc ''const x = {''"])
     (simp_all add: eval_text eval_extract upt_rec)

text \<open>
  C10, as the claim states it. The one line \<open>const x = {\<close> matches the start pattern and no
  later line terminates the block, and the call raises the error of the empty body.
\<close>

theorem extract_const_block_without_terminator_counterexample:
  "const_pattern_search ascii_only (asc ''x'') (asc ''const x = {'') \<and>
   splitlines (asc ''const x = {'') = [asc ''const x = {''] \<and>
   extract_const_block ascii_only (asc ''const x = {'') (asc ''x'') = Inl NoObjectBody"
  by (simp add: extract_const_block_def eval_text eval_extract upt_rec)

section \<open>Properties of the hierarchy builder\<close>

lemma map_of_update_children:
  "map_of (map (\<lambda>kc. if fst kc = k then (fst kc, g (snd kc)) else kc) kvs) k' =
     (if k' = k then map_option g (map_of kvs k') else map_of kvs k')"
  by (induction kvs) auto

lemma get_at_add_key:
  "get_at t q \<noteq> None \<Longrightarrow> get_at (add_key k t) q \<noteq> None"
proof (cases t)
  case (Node kvs)
  assume a: "get_at t q \<noteq> None"
  show ?thesis
  proof (cases q)
    case Nil
    then show ?thesis by simp
  next
    case (Cons k' ks)
    with a Node obtain c where c: "map_of kvs k' = Some c" and "get_at c ks \<noteq> None"
      by (auto split: option.splits)
    then show ?thesis using Node Cons by (simp add: map_of_append)
  qed
qed

lemma get_at_update_at:
  assumes "\<And>t q. get_at t q \<noteq> None \<Longrightarrow> get_at (f t) q \<noteq> None"
  shows "get_at t q \<noteq> None \<Longrightarrow> get_at (update_at p f t) q \<noteq> None"
proof (induction p arbitrary: t q)
  case Nil
  then show ?case by (simp add: assms)
next
  case (Cons k ks)
  obtain kvs where t: "t = Node kvs" by (cases t)
  show ?case
  proof (cases q)
    case Nil
    then show ?thesis by simp
  next
    case q: (Cons k' qs)
    with Cons.prems t obtain c where c: "map_of kvs k' = Some c" and g: "get_at c qs \<noteq> None"
      by (auto split: option.splits)
    from g have upd: "get_at (update_at ks f c) qs \<noteq> None"
      by (rule Cons.IH)
    then show ?thesis
    proof (cases "k' = k")
      case True
      with upd c t q show ?thesis by (simp add: map_of_update_children)
    next
      case False
      with c g t q show ?thesis by (simp add: map_of_update_children)
    qed
  qed
qed

lemma get_at_append:
  "get_at t (p @ q) = (case get_at t p of None \<Rightarrow> None | Some c \<Rightarrow> get_at c q)"
  by (induction t p rule: get_at.induct) (auto split: option.splits)

lemma get_at_update_at_same:
  "get_at t p \<noteq> None \<Longrightarrow> get_at (update_at p f t) p = map_option f (get_at t p)"
proof (induction p f t rule: update_at.induct)
  case (1 f t)
  then show ?case by simp
next
  case (2 k ks f kvs)
  then obtain c where c: "map_of kvs k = Some c" and g: "get_at c ks \<noteq> None"
    by (auto split: option.splits)
  from c have "(k, c) \<in> set kvs" by (rule map_of_SomeD)
  with g have "get_at (update_at ks f c) ks = map_option f (get_at c ks)"
    using "2.IH" [of "(k, c)"] by simp
  with c show ?case by (simp add: map_of_update_children)
qed

lemma is_child_after_add:
  assumes "get_at t p \<noteq> None"
  shows "is_child_at (update_at p (add_key k) t) p k"
proof -
  from assms obtain c where c: "get_at t p = Some c" by auto
  then have "get_at (update_at p (add_key k) t) p = Some (add_key k c)"
    using get_at_update_at_same [OF assms, of "add_key k"] by simp
  then show ?thesis by (cases c) (simp add: is_child_at_def)
qed

lemma child_path_exists:
  assumes "is_child_at t p k"
  shows "get_at t (p @ [k]) \<noteq> None"
proof -
  from assms obtain c where c: "get_at t p = Some c" and k: "k \<in> set (map fst (children c))"
    by (auto simp: is_child_at_def split: option.splits)
  obtain kvs where n: "c = Node kvs" by (cases c)
  with k have "map_of kvs k \<noteq> None" by (simp add: map_of_eq_None_iff)
  with c n show ?thesis by (auto simp: get_at_append)
qed

lemma record_level_ge_1: "1 \<le> record_level b s i"
  by (simp add: record_level_def Let_def)

lemma pop_to_Nil: "pop_to L [] = []"
  by (simp add: pop_to.simps)

lemma pop_to_snoc: "pop_to L (st @ [e]) = (if L \<le> fst e then pop_to L st else st @ [e])"
  by (subst pop_to.simps) simp

lemma pop_to_sorted:
  "sorted_wrt (<) (map fst st) \<Longrightarrow> pop_to L st = filter (\<lambda>e. fst e < L) st"
proof (induction st rule: rev_induct)
  case Nil
  show ?case by (simp add: pop_to_Nil)
next
  case (snoc e st)
  from snoc.prems have sorted: "sorted_wrt (<) (map fst st)"
    and below: "\<forall>x \<in> set st. fst x < fst e"
    by (auto simp: sorted_wrt_append)
  show ?case
  proof (cases "L \<le> fst e")
    case True
    with snoc.IH [OF sorted] show ?thesis by (simp add: pop_to_snoc)
  next
    case False
    with below have "\<forall>x \<in> set st. fst x < L" by auto
    then have "filter (\<lambda>e. fst e < L) st = st" by simp
    with False show ?thesis by (simp add: pop_to_snoc)
  qed
qed

lemma stack_increasing_pop:
  assumes "stack_increasing st" and "1 \<le> L"
  shows "stack_increasing (pop_to L st)" and "\<forall>e \<in> set (pop_to L st). fst e < L"
    and "set (pop_to L st) \<subseteq> set st"
proof -
  from assms(1) obtain rest where st: "st = (- 1, []) # rest"
    and sorted: "sorted_wrt (<) (map fst st)"
    by (cases st) (auto simp: stack_increasing_def)
  have eq: "pop_to L st = filter (\<lambda>e. fst e < L) st"
    using sorted by (rule pop_to_sorted)
  from assms(2) have "filter (\<lambda>e. fst e < L) st = (- 1, []) # filter (\<lambda>e. fst e < L) rest"
    by (simp add: st)
  moreover have "sorted_wrt (<) (map fst (filter (\<lambda>e. fst e < L) st))"
    using sorted by (simp add: sorted_wrt_map sorted_wrt_filter)
  ultimately show "stack_increasing (pop_to L st)"
    by (simp add: eq stack_increasing_def)
  show "\<forall>e \<in> set (pop_to L st). fst e < L" by (simp add: eq)
  show "set (pop_to L st) \<subseteq> set st" by (auto simp: eq)
qed

lemma stack_increasing_push:
  assumes "stack_increasing st" and "\<forall>e \<in> set st. fst e < L"
  shows "stack_increasing (st @ [(L, p)])"
  using assms by (auto simp: stack_increasing_def sorted_wrt_append)

lemma process_record_ok:
  fixes b step :: int and s :: build_state and r :: "int \<times> ustr"
  assumes step: "step \<noteq> 0" and inc: "stack_increasing (stack s)" and ex: "paths_exist s"
  defines "L \<equiv> record_level b step (fst r)"
  defines "st \<equiv> pop_to L (stack s)"
  shows "\<exists>s'. process_record b step s r = Inr s' \<and>
           stack s' = st @ [(L, snd (last st) @ [snd r])] \<and>
           tree s' = update_at (snd (last st)) (add_key (snd r)) (tree s) \<and>
           stack_increasing (stack s') \<and> paths_exist s' \<and>
           is_child_at (tree s') (snd (last st)) (snd r)"
proof -
  have L1: "1 \<le> L" by (simp add: L_def record_level_ge_1)
  have st_inc: "stack_increasing st" and st_below: "\<forall>e \<in> set st. fst e < L"
    and st_sub: "set st \<subseteq> set (stack s)"
    unfolding st_def using stack_increasing_pop [OF inc L1] by blast+
  from st_inc have ne: "st \<noteq> []" by (simp add: stack_increasing_def)
  define s' where "s' = \<lparr>tree = update_at (snd (last st)) (add_key (snd r)) (tree s),
    stack = st @ [(L, snd (last st) @ [snd r])]\<rparr>"
  have res: "process_record b step s r = Inr s'"
    using step ne by (simp add: process_record_def L_def [symmetric] st_def [symmetric] s'_def Let_def)
  have old: "get_at (tree s) (snd e) \<noteq> None" if "e \<in> set st" for e
    using ex st_sub that by (auto simp: paths_exist_def list_all_iff)
  from ne have "last st \<in> set st" by simp
  then have parent: "get_at (tree s) (snd (last st)) \<noteq> None" by (rule old)
  have child: "is_child_at (tree s') (snd (last st)) (snd r)"
    unfolding s'_def using parent by (simp add: is_child_after_add)
  have kept: "get_at (tree s') (snd e) \<noteq> None" if "e \<in> set st" for e
    unfolding s'_def using old [OF that]
    by (simp add: get_at_update_at get_at_add_key)
  have new: "get_at (tree s') (snd (last st) @ [snd r]) \<noteq> None"
    using child by (rule child_path_exists)
  have "paths_exist s'"
    using kept new by (auto simp: paths_exist_def list_all_iff s'_def)
  moreover have "stack_increasing (stack s')"
    using stack_increasing_push [OF st_inc st_below] by (simp add: s'_def)
  ultimately show ?thesis using res child by (auto simp: s'_def)
qed

lemma build_loop_snoc:
  "build_loop b step s (rs @ [r]) =
     (case build_loop b step s rs of Inl e \<Rightarrow> Inl e | Inr s' \<Rightarrow> process_record b step s' r)"
  by (induction rs arbitrary: s) (auto split: sum.splits)

lemma build_loop_ok:
  assumes "step \<noteq> 0"
  shows "stack_increasing (stack s) \<Longrightarrow> paths_exist s \<Longrightarrow>
     \<exists>s'. build_loop b step s rs = Inr s' \<and> stack_increasing (stack s') \<and> paths_exist s'"
proof (induction rs arbitrary: s)
  case Nil
  then show ?case by simp
next
  case (Cons r rs)
  from process_record_ok [OF assms Cons.prems, of b r]
  obtain s1 where "process_record b step s r = Inr s1" "stack_increasing (stack s1)" "paths_exist s1"
    by blast
  with Cons.IH [of s1] show ?case by simp
qed

lemma initial_state_ok: "stack_increasing (stack initial_state) \<and> paths_exist initial_state"
  by (simp add: initial_state_def stack_increasing_def paths_exist_def)

lemma py_min_Min: "xs \<noteq> [] \<Longrightarrow> py_min xs = Inr (Min (set xs))"
proof (cases xs)
  case Nil
  assume "xs \<noteq> []"
  with Nil show ?thesis by simp
next
  case (Cons x ys)
  have "(\<lambda>y m. if y < m then y else m) = (min :: int \<Rightarrow> int \<Rightarrow> int)"
    by (auto simp: min_def fun_eq_iff)
  then show ?thesis by (simp only: Cons py_min.simps Min.set_eq_fold)
qed

lemma set_diffs: "set (diffs b rs) = {d. 0 < d \<and> d \<in> (\<lambda>r. fst r - b) ` set rs}"
  by (auto simp: diffs_def)

lemma indent_step_spec:
  "indent_step b rs =
     (if {d. 0 < d \<and> d \<in> (\<lambda>r. fst r - b) ` set rs} = {} then 2
      else Min {d. 0 < d \<and> d \<in> (\<lambda>r. fst r - b) ` set rs})"
proof (cases "diffs b rs")
  case Nil
  then have "set (diffs b rs) = {}" by simp
  then have "{d. 0 < d \<and> d \<in> (\<lambda>r. fst r - b) ` set rs} = {}" by (simp only: set_diffs)
  with Nil show ?thesis by (simp add: indent_step_def)
next
  case (Cons d ds)
  define S where "S = {d. 0 < d \<and> d \<in> (\<lambda>r. fst r - b) ` set rs}"
  have S: "S = set (d # ds)"
    unfolding S_def using set_diffs [of b rs] Cons by simp
  have "sorted (diffs b rs)" by (simp add: diffs_def)
  with Cons have "\<forall>x \<in> set (d # ds). d \<le> x" by auto
  then have "Min (set (d # ds)) = d"
    by (intro Min_eqI) auto
  then have "Min S = d" and "S \<noteq> {}"
    unfolding S by simp_all
  then have "(if S = {} then 2 else Min S) = d" by simp
  with Cons show ?thesis unfolding S_def by (simp add: indent_step_def)
qed

lemma indent_step_pos: "0 < indent_step b rs"
proof (cases "diffs b rs")
  case Nil
  then show ?thesis by (simp add: indent_step_def)
next
  case (Cons d ds)
  then have "d \<in> set (diffs b rs)" by simp
  then have "0 < d" by (simp add: set_diffs)
  with Cons show ?thesis by (simp add: indent_step_def)
qed

lemma record_level_floor:
  "record_level b s i = max 1 (1 + \<lfloor>real_of_int (i - b) / real_of_int s\<rfloor>)"
proof -
  have "\<lfloor>real_of_int (i - b) / real_of_int s\<rfloor> = (i - b) div s"
    by (rule floor_divide_of_int_eq)
  then show ?thesis
    unfolding record_level_def Let_def by (simp only: max_def) simp
qed

lemma raw_level_ge_1:
  assumes "r \<in> set rs"
  shows "0 \<le> fst r - Min (fst ` set rs)"
    and "1 \<le> 1 + (fst r - Min (fst ` set rs)) div indent_step (Min (fst ` set rs)) rs"
    and "record_level (Min (fst ` set rs)) (indent_step (Min (fst ` set rs)) rs) (fst r)
           = 1 + (fst r - Min (fst ` set rs)) div indent_step (Min (fst ` set rs)) rs"
proof -
  from assms have "Min (fst ` set rs) \<le> fst r" by simp
  then show nonneg: "0 \<le> fst r - Min (fst ` set rs)" by simp
  then have "0 \<le> (fst r - Min (fst ` set rs)) div indent_step (Min (fst ` set rs)) rs"
    using indent_step_pos [of "Min (fst ` set rs)" rs] by (simp add: pos_imp_zdiv_nonneg_iff)
  then show "1 \<le> 1 + (fst r - Min (fst ` set rs)) div indent_step (Min (fst ` set rs)) rs"
    by simp
  then show "record_level (Min (fst ` set rs)) (indent_step (Min (fst ` set rs)) rs) (fst r)
           = 1 + (fst r - Min (fst ` set rs)) div indent_step (Min (fst ` set rs)) rs"
    by (simp add: record_level_def Let_def)
qed

lemma build_loop_prefix:
  assumes "step \<noteq> 0" and "n < length rs"
  shows "\<exists>s s'. build_loop b step initial_state (take n rs) = Inr s \<and>
           stack_increasing (stack s) \<and> paths_exist s \<and>
           build_loop b step initial_state (take (Suc n) rs) = Inr s' \<and>
           process_record b step s (rs ! n) = Inr s' \<and>
           stack_increasing (stack s') \<and> paths_exist s'"
proof -
  from build_loop_ok [OF assms(1), of initial_state b "take n rs"] initial_state_ok
  obtain s where s: "build_loop b step initial_state (take n rs) = Inr s"
    "stack_increasing (stack s)" "paths_exist s"
    by blast
  from process_record_ok [OF assms(1) s(2,3), of b "rs ! n"]
  obtain s' where s': "process_record b step s (rs ! n) = Inr s'"
    "stack_increasing (stack s')" "paths_exist s'"
    by blast
  from assms(2) have "take (Suc n) rs = take n rs @ [rs ! n]"
    by (rule take_Suc_conv_app_nth)
  with s(1) s'(1) have "build_loop b step initial_state (take (Suc n) rs) = Inr s'"
    by (simp add: build_loop_snoc)
  with s s' show ?thesis by blast
qed

text \<open>
  C5. For records that are not empty, the base indent is the least indent of all records;
  the step is the least strictly positive difference of an indent and the base indent, and 2
  when there is none; the level of a record is 1 plus the difference divided by the step,
  rounded down, and at least 1. It is the level that the loop pushes with the key of the
  record.
\<close>

theorem build_tree_from_keys_levels:
  assumes "records \<noteq> []"
  shows "py_min (map fst records) = Inr (Min (fst ` set records)) \<and>
    (let base_indent = Min (fst ` set records);
         step = indent_step base_indent records;
         positive = {d. 0 < d \<and> d \<in> (\<lambda>r. fst r - base_indent) ` set records}
     in step = (if positive = {} then 2 else Min positive) \<and>
        (\<forall>r \<in> set records.
           record_level base_indent step (fst r)
             = max 1 (1 + \<lfloor>real_of_int (fst r - base_indent) / real_of_int step\<rfloor>)) \<and>
        (\<forall>n < length records.
           \<exists>s. build_loop base_indent step initial_state (take (Suc n) records) = Inr s \<and>
               fst (last (stack s)) = record_level base_indent step (fst (records ! n))))"
proof -
  define base_indent where "base_indent = Min (fst ` set records)"
  define step where "step = indent_step base_indent records"
  from assms have "py_min (map fst records) = Inr (Min (set (map fst records)))"
    by (intro py_min_Min) simp
  then have min: "py_min (map fst records) = Inr (Min (fst ` set records))" by simp
  have step_eq: "step = (if {d. 0 < d \<and> d \<in> (\<lambda>r. fst r - base_indent) ` set records} = {} then 2
      else Min {d. 0 < d \<and> d \<in> (\<lambda>r. fst r - base_indent) ` set records})"
    unfolding step_def by (rule indent_step_spec)
  have lev: "\<forall>r \<in> set records. record_level base_indent step (fst r)
      = max 1 (1 + \<lfloor>real_of_int (fst r - base_indent) / real_of_int step\<rfloor>)"
    by (simp only: record_level_floor) simp
  have "step \<noteq> 0" using indent_step_pos [of base_indent records] by (simp add: step_def)
  have loop: "\<exists>s. build_loop base_indent step initial_state (take (Suc n) records) = Inr s \<and>
      fst (last (stack s)) = record_level base_indent step (fst (records ! n))"
    if "n < length records" for n
  proof -
    from build_loop_prefix [OF \<open>step \<noteq> 0\<close> that, of base_indent]
    obtain s s' where s: "build_loop base_indent step initial_state (take n records) = Inr s"
      "stack_increasing (stack s)" "paths_exist s"
      "build_loop base_indent step initial_state (take (Suc n) records) = Inr s'"
      "process_record base_indent step s (records ! n) = Inr s'"
      by blast
    from process_record_ok [OF \<open>step \<noteq> 0\<close> s(2,3), of base_indent "records ! n"] s(5)
    have "fst (last (stack s')) = record_level base_indent step (fst (records ! n))"
      by auto
    with s(4) show ?thesis by blast
  qed
  from min step_eq lev loop show ?thesis
    unfolding Let_def base_indent_def [symmetric] step_def [symmetric] by blast
qed

text \<open>The records (2, foo), (2, bar), (4, baz).\<close>

theorem build_tree_from_keys_levels_witness:
  "py_min (map fst [(2, asc ''foo''), (2, asc ''bar''), (4, asc ''baz'')]) = Inr 2 \<and>
   indent_step 2 [(2, asc ''foo''), (2, asc ''bar''), (4, asc ''baz'')] = 2 \<and>
   record_level 2 2 4 = max 1 (1 + \<lfloor>real_of_int (4 - 2) / real_of_int 2\<rfloor>)"
proof -
  let ?R = "[(2::int, asc ''foo''), (2, asc ''bar''), (4, asc ''baz'')]"
  have ne: "?R \<noteq> []" by simp
  have m: "Min (fst ` set ?R) = 2" by simp
  have st: "indent_step 2 ?R = 2" by (simp add: indent_step_def diffs_def)
  have mem: "(4, asc ''baz'') \<in> set ?R" by simp
  from build_tree_from_keys_levels [OF ne] mem
  show ?thesis unfolding Let_def m st by fastforce
qed

text \<open>
  C4. After any number of rounds of the loop the stack starts with the entry of
  \<open>root_container\<close> at level \<open>-1\<close>, its levels increase strictly, and after a round its top
  is the entry of the key just inserted. A round for a record of level \<open>L\<close> first pops the
  entries of level \<open>L\<close> or more, all of them and no other, and then pushes the key under the
  container of the new top, of which the key then is a child.
\<close>

theorem build_loop_stack_invariant:
  assumes "records \<noteq> []"
  shows "let base_indent = Min (fst ` set records);
             step = indent_step base_indent records
    in (\<forall>n \<le> length records.
          \<exists>s. build_loop base_indent step initial_state (take n records) = Inr s \<and>
              stack_increasing (stack s) \<and>
              (0 < n \<longrightarrow>
                 (\<exists>parent. last (stack s) =
                    (record_level base_indent step (fst (records ! (n - 1))),
                     parent @ [snd (records ! (n - 1))])))) \<and>
       (\<forall>n < length records. \<forall>s.
          build_loop base_indent step initial_state (take n records) = Inr s \<longrightarrow>
            (let level = record_level base_indent step (fst (records ! n));
                 key = snd (records ! n);
                 st = pop_to level (stack s)
             in st = filter (\<lambda>e. fst e < level) (stack s) \<and>
                st \<noteq> [] \<and>
                (\<exists>s'. build_loop base_indent step initial_state (take (Suc n) records) = Inr s' \<and>
                      stack s' = st @ [(level, snd (last st) @ [key])] \<and>
                      is_child_at (tree s') (snd (last st)) key)))"
proof -
  define base_indent where "base_indent = Min (fst ` set records)"
  define step where "step = indent_step base_indent records"
  have step: "step \<noteq> 0" using indent_step_pos [of base_indent records] by (simp add: step_def)
  have one: "\<exists>s'. build_loop base_indent step initial_state (take (Suc n) records) = Inr s' \<and>
        stack_increasing (stack s') \<and>
        pop_to (record_level base_indent step (fst (records ! n))) (stack s)
          = filter (\<lambda>e. fst e < record_level base_indent step (fst (records ! n))) (stack s) \<and>
        pop_to (record_level base_indent step (fst (records ! n))) (stack s) \<noteq> [] \<and>
        stack s' = pop_to (record_level base_indent step (fst (records ! n))) (stack s) @
          [(record_level base_indent step (fst (records ! n)),
            snd (last (pop_to (record_level base_indent step (fst (records ! n))) (stack s))) @
              [snd (records ! n)])] \<and>
        is_child_at (tree s')
          (snd (last (pop_to (record_level base_indent step (fst (records ! n))) (stack s))))
          (snd (records ! n))"
    if n: "n < length records"
      and s: "build_loop base_indent step initial_state (take n records) = Inr s" for n s
  proof -
    from build_loop_prefix [OF step n, of base_indent] s
    obtain s' where s': "stack_increasing (stack s)" "paths_exist s"
      "build_loop base_indent step initial_state (take (Suc n) records) = Inr s'"
      "process_record base_indent step s (records ! n) = Inr s'"
      by auto
    let ?L = "record_level base_indent step (fst (records ! n))"
    from s'(1) have "sorted_wrt (<) (map fst (stack s))" by (simp add: stack_increasing_def)
    then have flt: "pop_to ?L (stack s) = filter (\<lambda>e. fst e < ?L) (stack s)"
      by (rule pop_to_sorted)
    have "stack_increasing (pop_to ?L (stack s))"
      using s'(1) record_level_ge_1 by (rule stack_increasing_pop)
    then have ne: "pop_to ?L (stack s) \<noteq> []" by (simp add: stack_increasing_def)
    from process_record_ok [OF step s'(1,2), of base_indent "records ! n"] s'(4)
    have "stack s' = pop_to ?L (stack s) @ [(?L, snd (last (pop_to ?L (stack s))) @ [snd (records ! n)])]"
      and "stack_increasing (stack s')"
      and "is_child_at (tree s') (snd (last (pop_to ?L (stack s)))) (snd (records ! n))"
      by auto
    with s'(3) flt ne show ?thesis by blast
  qed
  have first: "\<exists>s. build_loop base_indent step initial_state (take n records) = Inr s \<and>
        stack_increasing (stack s) \<and>
        (0 < n \<longrightarrow> (\<exists>parent. last (stack s) =
            (record_level base_indent step (fst (records ! (n - 1))),
             parent @ [snd (records ! (n - 1))])))"
    if "n \<le> length records" for n
  proof (cases n)
    case 0
    then show ?thesis using initial_state_ok by simp
  next
    case (Suc m)
    with that have m: "m < length records" by simp
    from build_loop_prefix [OF step m, of base_indent]
    obtain s where s: "build_loop base_indent step initial_state (take m records) = Inr s"
      by blast
    from one [OF m s] Suc show ?thesis by auto
  qed
  from first one show ?thesis
    unfolding Let_def base_indent_def [symmetric] step_def [symmetric] by blast
qed

text \<open>The stack after the records (2, foo), (2, bar), (4, baz).\<close>

theorem build_loop_stack_invariant_witness:
  "stack_increasing [(- 1, []), (1, [asc ''bar'']), (2, [asc ''bar'', asc ''baz''])]"
proof -
  let ?R = "[(2::int, asc ''foo''), (2, asc ''bar''), (4, asc ''baz'')]"
  have ne: "?R \<noteq> []" by simp
  have m: "Min (fst ` set ?R) = 2" by simp
  have st: "indent_step 2 ?R = 2" by (simp add: indent_step_def diffs_def)
  have run: "build_loop 2 2 initial_state (take 3 ?R) =
      Inr \<lparr>tree = Node [(asc ''foo'', Node []), (asc ''bar'', Node [(asc ''baz'', Node [])])],
           stack = [(- 1, []), (1, [asc ''bar'']), (2, [asc ''bar'', asc ''baz''])]\<rparr>"
    by (simp add: eval_builder asc_def Let_def)
  from build_loop_stack_invariant [OF ne]
  have "\<exists>s. build_loop 2 2 initial_state (take 3 ?R) = Inr s \<and> stack_increasing (stack s)"
    unfolding Let_def m st by (auto dest: spec [of _ 3])
  with run show ?thesis by simp
qed

text \<open>
  C9. For records that are not empty the step is positive and no indent lies below the base
  indent, so the level computed for a record is at least 1 before it is clamped. In every
  round the stack after the pops still starts with the entry of \<open>root_container\<close>: it is not
  empty, its top is a container of the tree, and \<open>build_tree_from_keys\<close> returns a tree.
\<close>

theorem build_tree_from_keys_root_kept:
  assumes "records \<noteq> []"
  shows "let base_indent = Min (fst ` set records);
             step = indent_step base_indent records
    in 0 < step \<and>
       (\<forall>r \<in> set records.
          0 \<le> fst r - base_indent \<and>
          1 \<le> 1 + (fst r - base_indent) div step \<and>
          record_level base_indent step (fst r) = 1 + (fst r - base_indent) div step) \<and>
       (\<forall>n < length records.
          \<exists>s. build_loop base_indent step initial_state (take n records) = Inr s \<and>
              (let st = pop_to (record_level base_indent step (fst (records ! n))) (stack s)
               in st \<noteq> [] \<and> hd st = (- 1, []) \<and> get_at (tree s) (snd (last st)) \<noteq> None)) \<and>
       (\<exists>t. build_tree_from_keys const_name records = Inr t)"
proof -
  define base_indent where "base_indent = Min (fst ` set records)"
  define step where "step = indent_step base_indent records"
  have pos: "0 < step" unfolding step_def by (rule indent_step_pos)
  then have step: "step \<noteq> 0" by simp
  have raw: "\<forall>r \<in> set records.
      0 \<le> fst r - base_indent \<and>
      1 \<le> 1 + (fst r - base_indent) div step \<and>
      record_level base_indent step (fst r) = 1 + (fst r - base_indent) div step"
    unfolding step_def base_indent_def using raw_level_ge_1 [of _ records] by blast
  have pop: "\<exists>s. build_loop base_indent step initial_state (take n records) = Inr s \<and>
      pop_to (record_level base_indent step (fst (records ! n))) (stack s) \<noteq> [] \<and>
      hd (pop_to (record_level base_indent step (fst (records ! n))) (stack s)) = (- 1, []) \<and>
      get_at (tree s)
        (snd (last (pop_to (record_level base_indent step (fst (records ! n))) (stack s)))) \<noteq> None"
    if n: "n < length records" for n
  proof -
    let ?L = "record_level base_indent step (fst (records ! n))"
    from build_loop_prefix [OF step n, of base_indent]
    obtain s where s: "build_loop base_indent step initial_state (take n records) = Inr s"
      "stack_increasing (stack s)" "paths_exist s"
      by blast
    have inc: "stack_increasing (pop_to ?L (stack s))"
      and sub: "set (pop_to ?L (stack s)) \<subseteq> set (stack s)"
      using stack_increasing_pop [OF s(2) record_level_ge_1] by blast+
    from inc have ne: "pop_to ?L (stack s) \<noteq> []" and hd: "hd (pop_to ?L (stack s)) = (- 1, [])"
      by (simp_all add: stack_increasing_def)
    from ne have "last (pop_to ?L (stack s)) \<in> set (stack s)"
      using sub last_in_set by blast
    with s(3) have "get_at (tree s) (snd (last (pop_to ?L (stack s)))) \<noteq> None"
      by (auto simp: paths_exist_def list_all_iff)
    with s(1) ne hd show ?thesis by blast
  qed
  from assms have "py_min (map fst records) = Inr (Min (set (map fst records)))"
    by (intro py_min_Min) simp
  then have min: "py_min (map fst records) = Inr base_indent" by (simp add: base_indent_def)
  from build_loop_ok [OF step, of initial_state base_indent records] initial_state_ok
  obtain s where "build_loop base_indent step initial_state records = Inr s" by blast
  with min have res: "\<exists>t. build_tree_from_keys const_name records = Inr t"
    by (simp add: build_tree_from_keys_def step_def)
  from pos raw pop res show ?thesis
    unfolding Let_def base_indent_def [symmetric] step_def [symmetric] by blast
qed

text \<open>The records (2, foo), (2, bar), (4, baz).\<close>

theorem build_tree_from_keys_root_kept_witness:
  "build_tree_from_keys (asc ''root'') [(2, asc ''foo''), (2, asc ''bar''), (4, asc ''baz'')]
     \<noteq> Inl IndexError \<and>
   0 < indent_step 2 [(2, asc ''foo''), (2, asc ''bar''), (4, asc ''baz'')]"
proof -
  let ?R = "[(2::int, asc ''foo''), (2, asc ''bar''), (4, asc ''baz'')]"
  have ne: "?R \<noteq> []" by simp
  have m: "Min (fst ` set ?R) = 2" by simp
  from build_tree_from_keys_root_kept [OF ne, of "asc ''root''"]
  show ?thesis unfolding Let_def m by auto
qed

end
